theory Spec2Isabelle
  imports Complex_Main "HOL-Library.Monad_Syntax" "HOL-Library.Multiset" "HOL-Library.Word"
begin

section \<open>Region rasterization and overlap (vot/region/raster.py)\<close>

text \<open>
  The module rasterizes rectangles, polygons and binary masks onto an integer pixel
  window and computes the intersection-over-union of two regions.

  Conventions of the embedding:
  \<^item> coordinates are \<open>int\<close>. The public entry point rounds rectangle and polygon
    coordinates (\<open>np.round\<close> in \<open>_infer_meta\<close>) before the kernels see them, so
    the kernels only ever receive integer-valued numbers; machine widths
    (\<open>int64\<close>, \<open>float64\<close>) are not modelled;
  \<^item> a pixel is a \<open>uint8\<close>, an \<open>8 word\<close>;
  \<^item> a 2-D \<open>numpy\<close> array is its shape together with its rows;
  \<^item> the kernels are compiled without bounds checks. The embedding checks every
    computed index: an access outside the array makes the kernel return \<open>None\<close>,
    so that \<open>Some\<close> means that all accesses were in range.
\<close>

subsection \<open>Arrays\<close>

type_synonym pixel = "8 word"

datatype ndarray = NDArray (shape0: nat) (shape1: nat) (cells: "pixel list list")

type_synonym bounds = "int \<times> int \<times> int \<times> int"

type_synonym point = "int \<times> int"

definition valid_array :: "ndarray \<Rightarrow> bool" where
  "valid_array m \<longleftrightarrow>
     length (cells m) = shape0 m \<and> list_all (\<lambda>r. length r = shape1 m) (cells m)"

definition shaped :: "nat \<Rightarrow> nat \<Rightarrow> ndarray \<Rightarrow> bool" where
  "shaped h w m \<longleftrightarrow> shape0 m = h \<and> shape1 m = w \<and> valid_array m"

text \<open>\<open>np.zeros((height, width), dtype=np.uint8)\<close>; a negative dimension is an error.\<close>

definition zeros :: "int \<Rightarrow> int \<Rightarrow> ndarray option" where
  "zeros height width =
     (if height < 0 \<or> width < 0 then None
      else Some (NDArray (nat height) (nat width)
                   (replicate (nat height) (replicate (nat width) 0))))"

text \<open>\<open>m[i, j]\<close> and \<open>m[i, j] = v\<close> with the index check written out.\<close>

definition get2 :: "ndarray \<Rightarrow> int \<Rightarrow> int \<Rightarrow> pixel option" where
  "get2 m i j =
     (if 0 \<le> i \<and> i < int (shape0 m) \<and> 0 \<le> j \<and> j < int (shape1 m)
      then Some (cells m ! nat i ! nat j) else None)"

definition set2 :: "ndarray \<Rightarrow> int \<Rightarrow> int \<Rightarrow> pixel \<Rightarrow> ndarray option" where
  "set2 m i j v =
     (if 0 \<le> i \<and> i < int (shape0 m) \<and> 0 \<le> j \<and> j < int (shape1 m)
      then Some (NDArray (shape0 m) (shape1 m)
                   ((cells m)[nat i := (cells m ! nat i)[nat j := v]]))
      else None)"

text \<open>Reading a 1-D array.\<close>

definition rd :: "'a list \<Rightarrow> nat \<Rightarrow> 'a option" where
  "rd xs i = (if i < length xs then Some (xs ! i) else None)"

text \<open>\<open>m.ravel()\<close>: the cells in row-major order.\<close>

definition ravel :: "ndarray \<Rightarrow> pixel list" where
  "ravel m = concat (cells m)"

text \<open>
  A Python slice bound \<open>k\<close> on an axis of length \<open>n\<close>: a negative bound counts from
  the end, and the result is clamped to \<open>0..n\<close>.
\<close>

definition slice_index :: "nat \<Rightarrow> int \<Rightarrow> nat" where
  "slice_index n k = (if k < 0 then nat (max 0 (k + int n)) else min (nat k) n)"

text \<open>\<open>m[r0:r1, c0:c1] = v\<close>.\<close>

definition assign_slice :: "ndarray \<Rightarrow> int \<Rightarrow> int \<Rightarrow> int \<Rightarrow> int \<Rightarrow> pixel \<Rightarrow> ndarray" where
  "assign_slice m r0 r1 c0 c1 v =
     (let rs = slice_index (shape0 m) r0; re = slice_index (shape0 m) r1;
          cs = slice_index (shape1 m) c0; ce = slice_index (shape1 m) c1
      in NDArray (shape0 m) (shape1 m)
           (map (\<lambda>i. if rs \<le> i \<and> i < re
                      then map (\<lambda>j. if cs \<le> j \<and> j < ce then v else cells m ! i ! j)
                             [0..<shape1 m]
                      else cells m ! i)
              [0..<shape0 m]))"

text \<open>\<open>for i in <list>: s = body(i, s)\<close>, stopping at the first failed access.\<close>

primrec for_loop :: "'i list \<Rightarrow> ('i \<Rightarrow> 's \<Rightarrow> 's option) \<Rightarrow> 's \<Rightarrow> 's option" where
  "for_loop [] body s = Some s"
| "for_loop (i # is) body s = (case body i s of None \<Rightarrow> None | Some s' \<Rightarrow> for_loop is body s')"

subsection \<open>\<open>mask_bounds\<close>\<close>

definition ii32_max :: int where "ii32_max = 2147483647"
definition ii32_min :: int where "ii32_min = - 2147483648"

text \<open>
  The body of the two nested loops, on the running (top, bottom, left, right). The loops
  run over the array's own shape, so the read \<open>mask[i, j]\<close> is always in range.
\<close>

definition mask_bounds_step :: "ndarray \<Rightarrow> nat \<Rightarrow> nat \<Rightarrow> bounds \<Rightarrow> bounds" where
  "mask_bounds_step msk i j s =
     (case s of (tp, bm, lf, rg) \<Rightarrow>
        if cells msk ! i ! j \<noteq> 0
        then (min tp (int i), max bm (int i), min lf (int j), max rg (int j))
        else s)"

definition mask_bounds_scan :: "ndarray \<Rightarrow> bounds" where
  "mask_bounds_scan msk =
     fold (\<lambda>i. fold (\<lambda>j. mask_bounds_step msk i j) [0..<shape1 msk]) [0..<shape0 msk]
       (ii32_max, ii32_min, ii32_max, ii32_min)"

definition mask_bounds :: "ndarray \<Rightarrow> bounds" where
  "mask_bounds msk =
     (case mask_bounds_scan msk of (tp, bm, lf, rg) \<Rightarrow>
        if tp = ii32_max then (0, 0, 0, 0) else (lf, tp, rg, bm))"

text \<open>
  What the scan computes from a start value and the set of positions it has met: the
  running minima and maxima.
\<close>

definition absorb :: "bounds \<Rightarrow> (int \<times> int) set \<Rightarrow> bounds" where
  "absorb s S =
     (case s of (tp, bm, lf, rg) \<Rightarrow>
        (Min (insert tp (fst ` S)), Max (insert bm (fst ` S)),
         Min (insert lf (snd ` S)), Max (insert rg (snd ` S))))"

text \<open>The positions (row, column) of the pixels of a mask that are set.\<close>

definition set_pixels :: "ndarray \<Rightarrow> (int \<times> int) set" where
  "set_pixels msk =
     {(int i, int j) | i j. i < shape0 msk \<and> j < shape1 msk \<and> cells msk ! i ! j \<noteq> 0}"

subsection \<open>\<open>rasterize_rectangle\<close>\<close>

definition rasterize_rectangle :: "int \<times> int \<times> int \<times> int \<Rightarrow> bounds \<Rightarrow> ndarray option" where
  "rasterize_rectangle data bounds =
     (case data of (x, y, w, h) \<Rightarrow> case bounds of (b0, b1, b2, b3) \<Rightarrow>
        let width = b2 - b0 + 1; height = b3 - b1 + 1 in
        do {
          msk \<leftarrow> zeros height width;
          if x > b2 \<or> x + w - 1 < b0 \<or> y > b3 \<or> y + h - 1 < b1 then Some msk
          else
            let lf = max 0 (x - b0);
                tp = max 0 (y - b1);
                rg = min b2 (x + w - 1 - b0);
                bm = min b3 (y + h - 1 - b1)
            in Some (assign_slice msk tp (bm + 1) lf (rg + 1) 1)
        })"

subsection \<open>\<open>copy_mask\<close>\<close>

text \<open>The body of the two nested loops: \<open>copy[i + oy, j + ox] = mask[i + gy, j + gx]\<close>.\<close>

definition copy_body ::
  "ndarray \<Rightarrow> int \<Rightarrow> int \<Rightarrow> int \<Rightarrow> int \<Rightarrow> nat \<Rightarrow> nat \<Rightarrow> ndarray \<Rightarrow> ndarray option" where
  "copy_body msk oy ox gy gx i j c =
     do {
       v \<leftarrow> get2 msk (int i + gy) (int j + gx);
       set2 c (int i + oy) (int j + ox) v
     }"

definition copy_mask :: "ndarray \<Rightarrow> int \<times> int \<Rightarrow> bounds \<Rightarrow> ndarray option" where
  "copy_mask msk offset bounds =
     (case offset of (o0, o1) \<Rightarrow> case bounds of (b0, b1, b2, b3) \<Rightarrow>
        let tx = max o0 b0;
            ty = max o1 b1;
            ox = tx - b0;
            oy = ty - b1;
            gx = tx - o0;
            gy = ty - o1;
            tw = min (b2 + 1) (o0 + int (shape1 msk)) - tx;
            th = min (b3 + 1) (o1 + int (shape0 msk)) - ty
        in do {
          copy \<leftarrow> zeros (b3 - b1 + 1) (b2 - b0 + 1);
          for_loop [0..<nat th] (\<lambda>i. for_loop [0..<nat tw] (copy_body msk oy ox gy gx i)) copy
        })"

subsection \<open>\<open>rasterize_polygon\<close>\<close>

text \<open>
  Storing a float into the \<open>int64\<close> intercept array truncates towards zero. The
  intercept itself is computed here in exact rational arithmetic; the \<open>float64\<close> value
  of the code can differ from it by rounding, and so can the stored integer. No
  property below depends on the value of an intercept.
\<close>

definition trunc :: "rat \<Rightarrow> int" where
  "trunc q = (if q < 0 then \<lceil>q\<rceil> else \<lfloor>q\<rfloor>)"

text \<open>The test that decides whether the edge from vertex \<open>j\<close> to vertex \<open>i\<close> meets the row.\<close>

definition crossing :: "int \<Rightarrow> int \<Rightarrow> int \<Rightarrow> bool" where
  "crossing yi yj pixelY \<longleftrightarrow>
     (yi \<le> pixelY \<and> yj > pixelY) \<or> (yj \<le> pixelY \<and> yi > pixelY) \<or>
     (yi < pixelY \<and> yj \<ge> pixelY) \<or> (yj < pixelY \<and> yi \<ge> pixelY) \<or>
     (yi = yj \<and> yi = pixelY)"

definition intercept :: "point \<Rightarrow> point \<Rightarrow> int \<Rightarrow> int" where
  "intercept p q pixelY =
     (let r = snd q - snd p; k = fst q - fst p
      in if r \<noteq> 0
         then trunc (of_int (fst p) + of_int (pixelY - snd p) / of_int r * of_int k)
         else fst p)"

text \<open>
  One iteration of the loop that builds the list of nodes; the state is
  \<open>(nodeX, nodes, j)\<close>. The loop starts with \<open>j = count - 1\<close> and does not run when
  \<open>count = 0\<close>, so \<open>j\<close> is a natural number whenever it is read.
\<close>

definition build_nodes_step ::
  "point list \<Rightarrow> int \<Rightarrow> nat \<Rightarrow> int list \<times> nat \<times> nat \<Rightarrow> (int list \<times> nat \<times> nat) option" where
  "build_nodes_step polygon pixelY i s =
     (case s of (nodeX, nodes, j) \<Rightarrow>
        do {
          p \<leftarrow> rd polygon i;
          q \<leftarrow> rd polygon j;
          if crossing (snd p) (snd q) pixelY
          then (if nodes < length nodeX
                then Some (nodeX[nodes := intercept p q pixelY], nodes + 1, i)
                else None)
          else Some (nodeX, nodes, i)
        })"

definition build_nodes :: "point list \<Rightarrow> int \<Rightarrow> int list \<Rightarrow> (int list \<times> nat \<times> nat) option" where
  "build_nodes polygon pixelY nodeX =
     for_loop [0..<length polygon] (build_nodes_step polygon pixelY)
       (nodeX, 0, length polygon - 1)"

text \<open>The number of pairs of positions that are out of order.\<close>

fun inversions :: "int list \<Rightarrow> nat" where
  "inversions [] = 0"
| "inversions (x # xs) = length (filter (\<lambda>y. y < x) xs) + inversions xs"

lemma filter_length_swap:
  "i < length xs \<Longrightarrow> j < length xs \<Longrightarrow>
   length (filter P (xs[i := xs ! j, j := xs ! i])) = length (filter P xs)"
proof -
  assume "i < length xs" "j < length xs"
  then have "mset (xs[i := xs ! j, j := xs ! i]) = mset xs"
    by (simp add: mset_swap)
  then have "filter_mset P (mset (xs[i := xs ! j, j := xs ! i])) = filter_mset P (mset xs)"
    by simp
  then have "mset (filter P (xs[i := xs ! j, j := xs ! i])) = mset (filter P xs)"
    by (simp only: mset_filter)
  then show ?thesis
    by (metis size_mset)
qed

lemma inversions_swap:
  "Suc i < length xs \<Longrightarrow> xs ! Suc i < xs ! i \<Longrightarrow>
   inversions (xs[i := xs ! Suc i, Suc i := xs ! i]) < inversions xs"
proof (induction xs arbitrary: i)
  case Nil
  then show ?case by simp
next
  case (Cons x xs)
  show ?case
  proof (cases i)
    case 0
    with Cons.prems obtain b post where xs: "xs = b # post"
      by (cases xs) auto
    with 0 Cons.prems show ?thesis by simp
  next
    case (Suc k)
    with Cons.prems have k: "Suc k < length xs" "xs ! Suc k < xs ! k"
      by auto
    from Cons.IH [OF k]
    have "inversions (xs[k := xs ! Suc k, Suc k := xs ! k]) < inversions xs" .
    moreover have "length (filter (\<lambda>y. y < x) (xs[k := xs ! Suc k, Suc k := xs ! k]))
        = length (filter (\<lambda>y. y < x) xs)"
      using k by (intro filter_length_swap) auto
    ultimately show ?thesis
      using Suc by simp
  qed
qed

text \<open>
  The sort of the first \<open>nodes\<close> intercepts. \<open>i < nodes - 1\<close> is written \<open>i + 1 < nodes\<close>,
  which is the same on integers.
\<close>

function bubble :: "nat \<Rightarrow> nat \<Rightarrow> int list \<Rightarrow> int list option" where
  "bubble nodes i nodeX =
     (if i + 1 < nodes then
        (if i + 1 < length nodeX then
           (if nodeX ! i > nodeX ! (i + 1)
            then bubble nodes (if i \<noteq> 0 then i - 1 else i)
                   (nodeX[i := nodeX ! (i + 1), i + 1 := nodeX ! i])
            else bubble nodes (i + 1) nodeX)
         else None)
      else Some nodeX)"
  by pat_completeness auto
termination
proof (relation "measures [\<lambda>(nodes, i, nodeX). inversions nodeX, \<lambda>(nodes, i, nodeX). nodes - i]")
  show "wf (measures [\<lambda>(nodes, i, nodeX). inversions nodeX, \<lambda>(nodes, i, nodeX). nodes - i])"
    by simp
next
  fix nodes i :: nat and nodeX :: "int list"
  assume "i + 1 < nodes" "i + 1 < length nodeX" "nodeX ! (i + 1) < nodeX ! i"
  then have "inversions (nodeX[i := nodeX ! Suc i, Suc i := nodeX ! i]) < inversions nodeX"
    by (intro inversions_swap) auto
  then show "((nodes, if i \<noteq> 0 then i - 1 else i, nodeX[i := nodeX ! (i + 1), i + 1 := nodeX ! i]),
              nodes, i, nodeX)
      \<in> measures [\<lambda>(nodes, i, nodeX). inversions nodeX, \<lambda>(nodes, i, nodeX). nodes - i]"
    by simp
next
  fix nodes i :: nat and nodeX :: "int list"
  assume "i + 1 < nodes" "i + 1 < length nodeX" "\<not> nodeX ! (i + 1) < nodeX ! i"
  then show "((nodes, i + 1, nodeX), nodes, i, nodeX)
      \<in> measures [\<lambda>(nodes, i, nodeX). inversions nodeX, \<lambda>(nodes, i, nodeX). nodes - i]"
    by auto
qed

text \<open>
  The loop that fills the pixels between pairs of nodes in row \<open>pixelY\<close>; \<open>break\<close>
  leaves the loop, \<open>continue\<close> is the recursive call at \<open>i + 1\<close>.
\<close>

function fill ::
  "nat \<Rightarrow> int \<Rightarrow> int \<Rightarrow> nat \<Rightarrow> int list \<Rightarrow> ndarray \<Rightarrow> (int list \<times> ndarray) option" where
  "fill nodes width pixelY i nodeX msk =
     (if i + 1 < nodes then
        (if i + 1 < length nodeX then
           (if nodeX ! i \<ge> width then Some (nodeX, msk)
            else if nodeX ! i = nodeX ! (i + 1) \<and> i + 2 < nodes
            then fill nodes width pixelY (i + 1) nodeX msk
            else if nodeX ! (i + 1) \<ge> 0
            then
              (let nodeX1 = (if nodeX ! i < 0 then nodeX[i := 0] else nodeX);
                   nodeX2 = (if nodeX1 ! (i + 1) \<ge> width
                             then nodeX1[i + 1 := width - 1] else nodeX1)
               in case for_loop [nodeX2 ! i .. nodeX2 ! (i + 1)]
                         (\<lambda>j m. set2 m pixelY j 1) msk of
                    None \<Rightarrow> None
                  | Some msk' \<Rightarrow> fill nodes width pixelY (i + 2) nodeX2 msk')
            else fill nodes width pixelY (i + 2) nodeX msk)
         else None)
      else Some (nodeX, msk))"
  by pat_completeness auto
termination
  by (relation "measure (\<lambda>(nodes, width, pixelY, i, nodeX, msk). nodes - i)") auto

declare bubble.simps [simp del] fill.simps [simp del]

text \<open>One row of the image: build the nodes, sort them, fill.\<close>

definition scanline ::
  "point list \<Rightarrow> int \<Rightarrow> nat \<Rightarrow> int list \<times> ndarray \<Rightarrow> (int list \<times> ndarray) option" where
  "scanline polygon width pixelY s =
     (case s of (nodeX, msk) \<Rightarrow>
        do {
          (nodeX1, nodes, j) \<leftarrow> build_nodes polygon (int pixelY) nodeX;
          nodeX2 \<leftarrow> bubble nodes 0 nodeX1;
          fill nodes width (int pixelY) 0 nodeX2 msk
        })"

definition rasterize_polygon :: "point list \<Rightarrow> bounds \<Rightarrow> ndarray option" where
  "rasterize_polygon data bounds =
     (case bounds of (b0, b1, b2, b3) \<Rightarrow>
        let count = length data;
            width = b2 - b0 + 1;
            height = b3 - b1 + 1;
            nodeX = replicate count 0
        in do {
          msk \<leftarrow> zeros height width;
          let polygon = map (\<lambda>(x, y). (x - b0, y - b1)) data;
          (nodeX', msk') \<leftarrow> for_loop [0..<nat height] (scanline polygon width) (nodeX, msk);
          Some msk'
        })"

subsection \<open>Regions and their bounds\<close>

text \<open>
  \<open>_infer_meta\<close> turns a region object into the triple (data, offset, type tag) that the
  kernels take. A \<open>region\<close> is such a triple: the constructor is the tag, its arguments
  are the data (and, for a mask, the offset). \<open>Empty\<close> stands for every region that is
  neither a rectangle, a polygon nor a mask.
\<close>

datatype region =
    Empty
  | Rectangle int int int int
  | Polygon "point list"
  | Mask ndarray "int \<times> int"

definition TYPE_EMPTY :: nat where "TYPE_EMPTY = 0"
definition TYPE_RECTANGLE :: nat where "TYPE_RECTANGLE = 1"
definition TYPE_POLYGON :: nat where "TYPE_POLYGON = 2"
definition TYPE_MASK :: nat where "TYPE_MASK = 3"

fun region_type :: "region \<Rightarrow> nat" where
  "region_type Empty = TYPE_EMPTY"
| "region_type (Rectangle x y w h) = TYPE_RECTANGLE"
| "region_type (Polygon ps) = TYPE_POLYGON"
| "region_type (Mask m off) = TYPE_MASK"

definition bounds_rectangle :: "int \<Rightarrow> int \<Rightarrow> int \<Rightarrow> int \<Rightarrow> bounds" where
  "bounds_rectangle x y w h = (x, y, x + w - 1, y + h - 1)"

text \<open>The largest finite \<open>float32\<close>, the start value of the polygon's running minimum.\<close>

definition fi32_max :: int where
  "fi32_max = 340282346638528859811704183484516925440"

definition fi32_min :: int where
  "fi32_min = - 340282346638528859811704183484516925440"

definition bounds_polygon_step :: "point \<Rightarrow> bounds \<Rightarrow> bounds" where
  "bounds_polygon_step p s =
     (case s of (tp, bm, lf, rg) \<Rightarrow>
        (min tp (snd p), max bm (snd p), min lf (fst p), max rg (fst p)))"

definition bounds_polygon :: "point list \<Rightarrow> bounds" where
  "bounds_polygon a =
     (case fold bounds_polygon_step a (fi32_max, fi32_min, fi32_max, fi32_min) of
        (tp, bm, lf, rg) \<Rightarrow> (lf, tp, rg, bm))"

definition bounds_mask :: "ndarray \<Rightarrow> int \<times> int \<Rightarrow> bounds" where
  "bounds_mask a off =
     (case mask_bounds a of (b0, b1, b2, b3) \<Rightarrow>
        (b0 + fst off, b1 + snd off, b2 + fst off, b3 + snd off))"

fun region_bounds :: "region \<Rightarrow> bounds" where
  "region_bounds (Rectangle x y w h) = bounds_rectangle x y w h"
| "region_bounds (Polygon ps) = bounds_polygon ps"
| "region_bounds (Mask m off) = bounds_mask m off"
| "region_bounds Empty = (0, 0, 0, 0)"

fun region_raster :: "region \<Rightarrow> bounds \<Rightarrow> ndarray option" where
  "region_raster (Rectangle x y w h) bounds = rasterize_rectangle (x, y, w, h) bounds"
| "region_raster (Polygon ps) bounds = rasterize_polygon ps bounds"
| "region_raster (Mask m off) bounds = copy_mask m off bounds"
| "region_raster Empty bounds =
     (case bounds of (b0, b1, b2, b3) \<Rightarrow> zeros (b3 - b1 + 1) (b2 - b0 + 1))"

subsection \<open>Overlap of two regions\<close>

definition union_bounds :: "bounds \<Rightarrow> bounds \<Rightarrow> bounds" where
  "union_bounds bounds1 bounds2 =
     (case bounds1 of (l1, t1, r1, b1) \<Rightarrow> case bounds2 of (l2, t2, r2, b2) \<Rightarrow>
        (min l1 l2, min t1 t2, max r1 r2, max b1 b2))"

text \<open>The window that is rasterized: the union, clipped to the image when its size is given.\<close>

definition raster_bounds :: "(int \<times> int) option \<Rightarrow> bounds \<Rightarrow> bounds" where
  "raster_bounds bounds un =
     (case un of (u0, u1, u2, u3) \<Rightarrow>
        case bounds of
          Some (bw, bh) \<Rightarrow> (max 0 u0, max 0 u1, min (bw - 1) u2, min (bh - 1) u3)
        | None \<Rightarrow> un)"

definition degenerate :: "bounds \<Rightarrow> bool" where
  "degenerate b = (case b of (b0, b1, b2, b3) \<Rightarrow> b0 \<ge> b2 \<or> b1 \<ge> b3)"

text \<open>The body of the counting loop; the state is \<open>(intersection, union_)\<close>.\<close>

definition count_step :: "pixel list \<Rightarrow> pixel list \<Rightarrow> nat \<Rightarrow> nat \<times> nat \<Rightarrow> (nat \<times> nat) option" where
  "count_step a1 a2 i s =
     (case s of (intersection, union_count) \<Rightarrow>
        do {
          p \<leftarrow> rd a1 i;
          q \<leftarrow> rd a2 i;
          Some (if p \<noteq> 0 \<or> q \<noteq> 0
                then (if p \<noteq> 0 \<and> q \<noteq> 0 then intersection + 1 else intersection,
                      union_count + 1)
                else s)
        })"

definition count_step_ignore ::
  "pixel list \<Rightarrow> pixel list \<Rightarrow> pixel list \<Rightarrow> nat \<Rightarrow> nat \<times> nat \<Rightarrow> (nat \<times> nat) option" where
  "count_step_ignore a1 a2 a3 i s =
     do {
       g \<leftarrow> rd a3 i;
       if g = 0 then count_step a1 a2 i s else Some s
     }"

text \<open>
  \<open>float(a) / float(b)\<close>: a division by zero raises \<open>ZeroDivisionError\<close>, here \<open>None\<close>.
  The quotient is the exact rational number.
\<close>

definition float_div :: "nat \<Rightarrow> nat \<Rightarrow> rat option" where
  "float_div a b = (if b = 0 then None else Some (of_nat a / of_nat b))"

text \<open>The last line: \<open>float(intersection) / float(union_) if union_ > 0 else float(0)\<close>.\<close>

definition ratio :: "nat \<times> nat \<Rightarrow> rat option" where
  "ratio s =
     (case s of (intersection, union_count) \<Rightarrow>
        if union_count > 0 then float_div intersection union_count else Some 0)"

text \<open>
  The two counting loops: with an ignore region that is not of the empty type, the
  loop that skips the pixels that region covers; otherwise the plain one.
\<close>

definition count_pixels ::
  "region option \<Rightarrow> bounds \<Rightarrow> pixel list \<Rightarrow> pixel list \<Rightarrow> (nat \<times> nat) option" where
  "count_pixels ignore rb a1 a2 =
     (case ignore of
        Some ig \<Rightarrow>
          if region_type ig \<noteq> TYPE_EMPTY
          then do {
            m3 \<leftarrow> region_raster ig rb;
            for_loop [0..<length a1] (count_step_ignore a1 a2 (ravel m3)) (0, 0)
          }
          else for_loop [0..<length a1] (count_step a1 a2) (0, 0)
      | None \<Rightarrow> for_loop [0..<length a1] (count_step a1 a2) (0, 0))"

text \<open>
  \<open>_calculate_overlap\<close>; the result is a float, here a rational number, and \<open>None\<close> when
  an array access is out of range or a division by zero is attempted.
\<close>

definition calculate_overlap_kernel ::
  "region \<Rightarrow> region \<Rightarrow> (int \<times> int) option \<Rightarrow> region option \<Rightarrow> rat option" where
  "calculate_overlap_kernel a b bounds ignore =
     (let bounds1 = region_bounds a;
          bounds2 = region_bounds b;
          un = union_bounds bounds1 bounds2
      in if degenerate un then Some 1
         else
           let rb = raster_bounds bounds un
           in if degenerate rb then Some 0
              else do {
                m1 \<leftarrow> region_raster a rb;
                m2 \<leftarrow> region_raster b rb;
                s \<leftarrow> count_pixels ignore rb (ravel m1) (ravel m2);
                ratio s
              })"

text \<open>\<open>calculate_overlap\<close>, the public entry point.\<close>

definition calculate_overlap ::
  "region \<Rightarrow> region \<Rightarrow> (int \<times> int) option \<Rightarrow> region option \<Rightarrow> rat option" where
  "calculate_overlap reg1 reg2 bounds ignore =
     (case ignore of
        Some ig \<Rightarrow> calculate_overlap_kernel reg1 reg2 bounds (Some ig)
      | None \<Rightarrow> calculate_overlap_kernel reg1 reg2 bounds None)"

subsection \<open>Overlap of two lists of regions\<close>

datatype error = RegionException nat nat | KernelFault

text \<open>
  A list comprehension evaluates its elements in order; the first one that fails ends
  the whole evaluation.
\<close>

fun collect :: "'a option list \<Rightarrow> error + 'a list" where
  "collect [] = Inr []"
| "collect (None # xs) = Inl KernelFault"
| "collect (Some x # xs) = (case collect xs of Inl e \<Rightarrow> Inl e | Inr ys \<Rightarrow> Inr (x # ys))"

definition calculate_overlaps ::
  "region list \<Rightarrow> region list \<Rightarrow> (int \<times> int) option \<Rightarrow> region list option \<Rightarrow> error + rat list" where
  "calculate_overlaps first second bounds ignore =
     (if \<not> length first = length second
      then Inl (RegionException (length first) (length second))
      else case ignore of
             Some ig \<Rightarrow>
               if \<not> length first = length ig
               then Inl (RegionException (length first) (length ig))
               else collect (map (\<lambda>(i, pairs).
                                    calculate_overlap (fst pairs) (snd pairs) bounds (Some (ig ! i)))
                               (enumerate 0 (zip first second)))
           | None \<Rightarrow>
               collect (map (\<lambda>(i, pairs). calculate_overlap (fst pairs) (snd pairs) bounds None)
                          (enumerate 0 (zip first second))))"

section \<open>Properties\<close>

subsection \<open>Loops and arrays\<close>

lemma for_loop_append:
  "for_loop (xs @ ys) body s =
     (case for_loop xs body s of None \<Rightarrow> None | Some s' \<Rightarrow> for_loop ys body s')"
  by (induction xs arbitrary: s) (auto split: option.splits)

lemma for_loop_invariant:
  assumes "I s"
    and "\<And>i s. i \<in> set xs \<Longrightarrow> I s \<Longrightarrow> \<exists>s'. body i s = Some s' \<and> I s'"
  shows "\<exists>s'. for_loop xs body s = Some s' \<and> I s'"
  using assms
proof (induction xs arbitrary: s)
  case Nil
  then show ?case by simp
next
  case (Cons x xs)
  from Cons.prems obtain s1 where s1: "body x s = Some s1" "I s1"
    by (meson list.set_intros(1))
  have "\<exists>s'. for_loop xs body s1 = Some s' \<and> I s'"
    by (rule Cons.IH [OF s1(2)]) (use Cons.prems(2) in auto)
  with s1 show ?case by simp
qed

lemma for_loop_upt_invariant:
  assumes "P 0 s"
    and "\<And>i s. i < n \<Longrightarrow> P i s \<Longrightarrow> \<exists>s'. body i s = Some s' \<and> P (Suc i) s'"
  shows "\<exists>s'. for_loop [0..<n] body s = Some s' \<and> P n s'"
  using assms(2)
proof (induction n)
  case 0
  with assms(1) show ?case by simp
next
  case (Suc n)
  have "\<exists>s'. for_loop [0..<n] body s = Some s' \<and> P n s'"
    by (rule Suc.IH) (use Suc.prems in auto)
  then obtain s1 where s1: "for_loop [0..<n] body s = Some s1" "P n s1"
    by blast
  from Suc.prems [of n s1] s1(2) obtain s2 where "body n s1 = Some s2" "P (Suc n) s2"
    by auto
  with s1 show ?case
    by (simp add: for_loop_append)
qed

lemma shaped_zeros:
  "0 \<le> h \<Longrightarrow> 0 \<le> w \<Longrightarrow> \<exists>m. zeros h w = Some m \<and> shaped (nat h) (nat w) m
     \<and> (\<forall>i < nat h. \<forall>j < nat w. cells m ! i ! j = 0)"
  by (auto simp: zeros_def shaped_def valid_array_def list_all_iff)

lemma set2_shaped:
  assumes "shaped h w m" "0 \<le> i" "i < int h" "0 \<le> j" "j < int w"
  shows "\<exists>m'. set2 m i j v = Some m' \<and> shaped h w m'
     \<and> (\<forall>r c. r < h \<longrightarrow> c < w \<longrightarrow> cells m' ! r ! c = (if r = nat i \<and> c = nat j then v else cells m ! r ! c))"
  using assms
  by (auto simp: set2_def shaped_def valid_array_def list_all_iff nth_list_update
      dest!: set_update_subset_insert [THEN subsetD])


lemma for_loop_skip:
  "(\<And>i. i \<in> set xs \<Longrightarrow> body i s = Some s) \<Longrightarrow> for_loop xs body s = Some s"
  by (induction xs) auto

subsection \<open>Copying a mask into a window\<close>

lemma copy_row:
  assumes c0: "shaped h w c0"
    and oy: "0 \<le> int i + oy" "int i + oy < int h"
    and ox: "0 \<le> ox" "ox + int TW \<le> int w"
    and gy: "0 \<le> int i + gy" "int i + gy < int (shape0 msk)"
    and gx: "0 \<le> gx" "gx + int TW \<le> int (shape1 msk)"
  shows "\<exists>c. for_loop [0..<TW] (copy_body msk oy ox gy gx i) c0 = Some c \<and> shaped h w c \<and>
           (\<forall>r<h. \<forall>cc<w. cells c ! r ! cc =
              (if int r = int i + oy \<and> ox \<le> int cc \<and> int cc < ox + int TW
               then cells msk ! nat (int i + gy) ! nat (int cc - ox + gx)
               else cells c0 ! r ! cc))"
proof (rule for_loop_upt_invariant
    [where P = "\<lambda>j c. shaped h w c \<and>
           (\<forall>r<h. \<forall>cc<w. cells c ! r ! cc =
              (if int r = int i + oy \<and> ox \<le> int cc \<and> int cc < ox + int j
               then cells msk ! nat (int i + gy) ! nat (int cc - ox + gx)
               else cells c0 ! r ! cc))"])
  show "shaped h w c0 \<and>
    (\<forall>r<h. \<forall>cc<w. cells c0 ! r ! cc =
        (if int r = int i + oy \<and> ox \<le> int cc \<and> int cc < ox + int 0
         then cells msk ! nat (int i + gy) ! nat (int cc - ox + gx)
         else cells c0 ! r ! cc))"
    using c0 by auto
next
  fix j c
  assume j: "j < TW"
    and inv: "shaped h w c \<and>
      (\<forall>r<h. \<forall>cc<w. cells c ! r ! cc =
          (if int r = int i + oy \<and> ox \<le> int cc \<and> int cc < ox + int j
           then cells msk ! nat (int i + gy) ! nat (int cc - ox + gx)
           else cells c0 ! r ! cc))"
  have g: "get2 msk (int i + gy) (int j + gx) = Some (cells msk ! nat (int i + gy) ! nat (int j + gx))"
    using j gy gx by (simp add: get2_def)
  have "0 \<le> int j + ox" "int j + ox < int w"
    using j ox by auto
  from set2_shaped [OF conjunct1 [OF inv] oy this, of "cells msk ! nat (int i + gy) ! nat (int j + gx)"]
  obtain c' where c': "set2 c (int i + oy) (int j + ox) (cells msk ! nat (int i + gy) ! nat (int j + gx)) = Some c'"
      "shaped h w c'"
      "\<forall>r c2. r < h \<longrightarrow> c2 < w \<longrightarrow> cells c' ! r ! c2 =
         (if r = nat (int i + oy) \<and> c2 = nat (int j + ox)
          then cells msk ! nat (int i + gy) ! nat (int j + gx) else cells c ! r ! c2)"
    by blast
  have "\<forall>r<h. \<forall>cc<w. cells c' ! r ! cc =
          (if int r = int i + oy \<and> ox \<le> int cc \<and> int cc < ox + int (Suc j)
           then cells msk ! nat (int i + gy) ! nat (int cc - ox + gx)
           else cells c0 ! r ! cc)"
  proof (intro allI impI)
    fix r cc assume rc: "r < h" "cc < w"
    show "cells c' ! r ! cc =
          (if int r = int i + oy \<and> ox \<le> int cc \<and> int cc < ox + int (Suc j)
           then cells msk ! nat (int i + gy) ! nat (int cc - ox + gx)
           else cells c0 ! r ! cc)"
    proof (cases "r = nat (int i + oy) \<and> cc = nat (int j + ox)")
      case True
      then have e: "int cc = int j + ox" "int r = int i + oy"
        using oy ox by auto
      then have "int cc - ox + gx = int j + gx" "ox \<le> int cc" "int cc < ox + int (Suc j)"
        by auto
      moreover have "cells c' ! r ! cc = cells msk ! nat (int i + gy) ! nat (int j + gx)"
        using True c'(3) rc by simp
      ultimately show ?thesis using e by simp
    next
      case False
      then have "cells c' ! r ! cc = cells c ! r ! cc"
        using c'(3) rc by auto
      also have "\<dots> = (if int r = int i + oy \<and> ox \<le> int cc \<and> int cc < ox + int j
           then cells msk ! nat (int i + gy) ! nat (int cc - ox + gx)
           else cells c0 ! r ! cc)"
        using inv rc by simp
      also have "\<dots> = (if int r = int i + oy \<and> ox \<le> int cc \<and> int cc < ox + int (Suc j)
           then cells msk ! nat (int i + gy) ! nat (int cc - ox + gx)
           else cells c0 ! r ! cc)"
        using False oy ox by auto
      finally show ?thesis .
    qed
  qed
  with g c' show "\<exists>s'. copy_body msk oy ox gy gx i j c = Some s' \<and> (shaped h w s' \<and>
      (\<forall>r<h. \<forall>cc<w. cells s' ! r ! cc =
          (if int r = int i + oy \<and> ox \<le> int cc \<and> int cc < ox + int (Suc j)
           then cells msk ! nat (int i + gy) ! nat (int cc - ox + gx)
           else cells c0 ! r ! cc)))"
    by (simp add: copy_body_def)
qed


lemma copy_rows:
  assumes c0: "shaped h w c0" "\<forall>r<h. \<forall>cc<w. cells c0 ! r ! cc = 0"
    and oy: "0 \<le> oy" "oy + int TH \<le> int h"
    and ox: "0 \<le> ox" "ox + int TW \<le> int w"
    and gy: "0 \<le> gy" "gy + int TH \<le> int (shape0 msk)"
    and gx: "0 \<le> gx" "gx + int TW \<le> int (shape1 msk)"
  shows "\<exists>c. for_loop [0..<TH] (\<lambda>i. for_loop [0..<TW] (copy_body msk oy ox gy gx i)) c0 = Some c
           \<and> shaped h w c \<and>
           (\<forall>r<h. \<forall>cc<w. cells c ! r ! cc =
              (if oy \<le> int r \<and> int r < oy + int TH \<and> ox \<le> int cc \<and> int cc < ox + int TW
               then cells msk ! nat (int r - oy + gy) ! nat (int cc - ox + gx)
               else 0))"
proof (rule for_loop_upt_invariant
    [where P = "\<lambda>i c. shaped h w c \<and>
           (\<forall>r<h. \<forall>cc<w. cells c ! r ! cc =
              (if oy \<le> int r \<and> int r < oy + int i \<and> ox \<le> int cc \<and> int cc < ox + int TW
               then cells msk ! nat (int r - oy + gy) ! nat (int cc - ox + gx)
               else 0))"])
  show "shaped h w c0 \<and>
    (\<forall>r<h. \<forall>cc<w. cells c0 ! r ! cc =
        (if oy \<le> int r \<and> int r < oy + int 0 \<and> ox \<le> int cc \<and> int cc < ox + int TW
         then cells msk ! nat (int r - oy + gy) ! nat (int cc - ox + gx)
         else 0))"
    using c0 by auto
next
  fix i c
  assume i: "i < TH"
    and inv: "shaped h w c \<and>
      (\<forall>r<h. \<forall>cc<w. cells c ! r ! cc =
          (if oy \<le> int r \<and> int r < oy + int i \<and> ox \<le> int cc \<and> int cc < ox + int TW
           then cells msk ! nat (int r - oy + gy) ! nat (int cc - ox + gx)
           else 0))"
  have b: "0 \<le> int i + oy" "int i + oy < int h" "0 \<le> int i + gy" "int i + gy < int (shape0 msk)"
    using i oy gy by auto
  from copy_row [OF conjunct1 [OF inv] b(1,2) ox b(3,4) gx]
  obtain c' where c': "for_loop [0..<TW] (copy_body msk oy ox gy gx i) c = Some c'"
    "shaped h w c'"
    "\<forall>r<h. \<forall>cc<w. cells c' ! r ! cc =
        (if int r = int i + oy \<and> ox \<le> int cc \<and> int cc < ox + int TW
         then cells msk ! nat (int i + gy) ! nat (int cc - ox + gx)
         else cells c ! r ! cc)"
    by blast
  have "\<forall>r<h. \<forall>cc<w. cells c' ! r ! cc =
          (if oy \<le> int r \<and> int r < oy + int (Suc i) \<and> ox \<le> int cc \<and> int cc < ox + int TW
           then cells msk ! nat (int r - oy + gy) ! nat (int cc - ox + gx)
           else 0)"
  proof (intro allI impI)
    fix r cc assume rc: "r < h" "cc < w"
    show "cells c' ! r ! cc =
          (if oy \<le> int r \<and> int r < oy + int (Suc i) \<and> ox \<le> int cc \<and> int cc < ox + int TW
           then cells msk ! nat (int r - oy + gy) ! nat (int cc - ox + gx)
           else 0)"
    proof (cases "int r = int i + oy")
      case True
      then have "int r - oy + gy = int i + gy" "oy \<le> int r" "int r < oy + int (Suc i)"
        "\<not> int r < oy + int i"
        by auto
      then show ?thesis
        using c'(3) inv rc True by auto
    next
      case False
      then have "(int r < oy + int (Suc i)) = (int r < oy + int i)"
        by auto
      then show ?thesis
        using c'(3) inv rc False by auto
    qed
  qed
  with c' show "\<exists>s'. for_loop [0..<TW] (copy_body msk oy ox gy gx i) c = Some s' \<and> (shaped h w s' \<and>
      (\<forall>r<h. \<forall>cc<w. cells s' ! r ! cc =
          (if oy \<le> int r \<and> int r < oy + int (Suc i) \<and> ox \<le> int cc \<and> int cc < ox + int TW
           then cells msk ! nat (int r - oy + gy) ! nat (int cc - ox + gx)
           else 0)))"
    by simp
qed


lemma copy_mask_cells:
  assumes wf: "b0 \<le> b2" "b1 \<le> b3"
  shows "\<exists>c. copy_mask msk (o0, o1) (b0, b1, b2, b3) = Some c
           \<and> shaped (nat (b3 - b1 + 1)) (nat (b2 - b0 + 1)) c
           \<and> (\<forall>r < nat (b3 - b1 + 1). \<forall>cc < nat (b2 - b0 + 1). cells c ! r ! cc =
                (if o0 \<le> b0 + int cc \<and> b0 + int cc < o0 + int (shape1 msk)
                    \<and> o1 \<le> b1 + int r \<and> b1 + int r < o1 + int (shape0 msk)
                 then cells msk ! nat (b1 + int r - o1) ! nat (b0 + int cc - o0)
                 else 0))"
proof -
  define h w where "h = nat (b3 - b1 + 1)" and "w = nat (b2 - b0 + 1)"
  define tx ty where "tx = max o0 b0" and "ty = max o1 b1"
  define tw th where "tw = min (b2 + 1) (o0 + int (shape1 msk)) - tx"
    and "th = min (b3 + 1) (o1 + int (shape0 msk)) - ty"
  have hw: "int h = b3 - b1 + 1" "int w = b2 - b0 + 1"
    using wf by (auto simp: h_def w_def)
  from shaped_zeros [of "b3 - b1 + 1" "b2 - b0 + 1"] wf
  obtain c0 where c0: "zeros (b3 - b1 + 1) (b2 - b0 + 1) = Some c0" "shaped h w c0"
    "\<forall>r<h. \<forall>cc<w. cells c0 ! r ! cc = 0"
    by (auto simp: h_def w_def)
  have unfold: "copy_mask msk (o0, o1) (b0, b1, b2, b3) =
      for_loop [0..<nat th]
        (\<lambda>i. for_loop [0..<nat tw] (copy_body msk (ty - b1) (tx - b0) (ty - o1) (tx - o0) i)) c0"
    using c0(1) by (simp add: copy_mask_def Let_def tx_def ty_def tw_def th_def)
  show ?thesis
  proof (cases "0 < th \<and> 0 < tw")
    case True
    have "\<exists>c. for_loop [0..<nat th]
        (\<lambda>i. for_loop [0..<nat tw] (copy_body msk (ty - b1) (tx - b0) (ty - o1) (tx - o0) i)) c0 = Some c
           \<and> shaped h w c \<and>
           (\<forall>r<h. \<forall>cc<w. cells c ! r ! cc =
              (if ty - b1 \<le> int r \<and> int r < ty - b1 + int (nat th)
                   \<and> tx - b0 \<le> int cc \<and> int cc < tx - b0 + int (nat tw)
               then cells msk ! nat (int r - (ty - b1) + (ty - o1)) ! nat (int cc - (tx - b0) + (tx - o0))
               else 0))"
      using True hw by (intro copy_rows c0) (auto simp: tx_def ty_def tw_def th_def)
    then obtain c where c: "copy_mask msk (o0, o1) (b0, b1, b2, b3) = Some c" "shaped h w c"
      "\<forall>r<h. \<forall>cc<w. cells c ! r ! cc =
              (if ty - b1 \<le> int r \<and> int r < ty - b1 + int (nat th)
                   \<and> tx - b0 \<le> int cc \<and> int cc < tx - b0 + int (nat tw)
               then cells msk ! nat (int r - (ty - b1) + (ty - o1)) ! nat (int cc - (tx - b0) + (tx - o0))
               else 0)"
      unfolding unfold by blast
    have "\<forall>r<h. \<forall>cc<w. cells c ! r ! cc =
                (if o0 \<le> b0 + int cc \<and> b0 + int cc < o0 + int (shape1 msk)
                    \<and> o1 \<le> b1 + int r \<and> b1 + int r < o1 + int (shape0 msk)
                 then cells msk ! nat (b1 + int r - o1) ! nat (b0 + int cc - o0)
                 else 0)"
    proof (intro allI impI)
      fix r cc assume rc: "r < h" "cc < w"
      have e1: "(ty - b1 \<le> int r \<and> int r < ty - b1 + int (nat th))
          = (o1 \<le> b1 + int r \<and> b1 + int r < o1 + int (shape0 msk))"
        using rc hw True by (auto simp: ty_def th_def)
      have e2: "(tx - b0 \<le> int cc \<and> int cc < tx - b0 + int (nat tw))
          = (o0 \<le> b0 + int cc \<and> b0 + int cc < o0 + int (shape1 msk))"
        using rc hw True by (auto simp: tx_def tw_def)
      have e: "(ty - b1 \<le> int r \<and> int r < ty - b1 + int (nat th)
                   \<and> tx - b0 \<le> int cc \<and> int cc < tx - b0 + int (nat tw))
          = (o0 \<le> b0 + int cc \<and> b0 + int cc < o0 + int (shape1 msk)
                    \<and> o1 \<le> b1 + int r \<and> b1 + int r < o1 + int (shape0 msk))"
        using e1 e2 by blast
      have e3: "int r - (ty - b1) + (ty - o1) = b1 + int r - o1"
        "int cc - (tx - b0) + (tx - o0) = b0 + int cc - o0"
        by auto
      show "cells c ! r ! cc =
                (if o0 \<le> b0 + int cc \<and> b0 + int cc < o0 + int (shape1 msk)
                    \<and> o1 \<le> b1 + int r \<and> b1 + int r < o1 + int (shape0 msk)
                 then cells msk ! nat (b1 + int r - o1) ! nat (b0 + int cc - o0)
                 else 0)"
        using c(3) [rule_format, OF rc] by (simp only: e e3)
    qed
    with c(1,2) show ?thesis
      unfolding h_def w_def by blast
  next
    case False
    have "for_loop [0..<nat th]
        (\<lambda>i. for_loop [0..<nat tw] (copy_body msk (ty - b1) (tx - b0) (ty - o1) (tx - o0) i)) c0 = Some c0"
    proof (cases "0 < th")
      case True
      with False have "nat tw = 0" by auto
      then show ?thesis
        by (intro for_loop_skip) simp
    next
      case False
      then show ?thesis by simp
    qed
    then have c: "copy_mask msk (o0, o1) (b0, b1, b2, b3) = Some c0"
      unfolding unfold .
    have "\<forall>r<h. \<forall>cc<w. \<not> (o0 \<le> b0 + int cc \<and> b0 + int cc < o0 + int (shape1 msk)
                    \<and> o1 \<le> b1 + int r \<and> b1 + int r < o1 + int (shape0 msk))"
    proof (intro allI impI)
      fix r cc assume rc: "r < h" "cc < w"
      show "\<not> (o0 \<le> b0 + int cc \<and> b0 + int cc < o0 + int (shape1 msk)
                    \<and> o1 \<le> b1 + int r \<and> b1 + int r < o1 + int (shape0 msk))"
        using False rc hw by (auto simp: tx_def ty_def tw_def th_def)
    qed
    with c0(2,3) c show ?thesis
      unfolding h_def w_def by auto
  qed
qed

text \<open>
  C8. For a window with \<open>b0 \<le> b2\<close> and \<open>b1 \<le> b3\<close>, \<open>copy_mask\<close> returns (all its
  accesses being in range) an array of \<open>b3 - b1 + 1\<close> rows and \<open>b2 - b0 + 1\<close> columns.
  Its cell \<open>(row, col)\<close> holds the source value at pixel \<open>(b0 + col, b1 + row)\<close>, that
  is, source cell \<open>(b1 + row - o1, b0 + col - o0)\<close>, when that pixel lies within the
  source's extent \<open>[o0, o0 + shape1) \<times> [o1, o1 + shape0)\<close>, and 0 otherwise. Nothing is
  assumed on how window and source lie to each other.
\<close>

theorem copy_mask_window:
  assumes "b0 \<le> b2" and "b1 \<le> b3"
  shows "\<exists>copy. copy_mask msk (o0, o1) (b0, b1, b2, b3) = Some copy
           \<and> shape0 copy = nat (b3 - b1 + 1) \<and> shape1 copy = nat (b2 - b0 + 1)
           \<and> valid_array copy
           \<and> (\<forall>row < nat (b3 - b1 + 1). \<forall>col < nat (b2 - b0 + 1). cells copy ! row ! col =
                (if o0 \<le> b0 + int col \<and> b0 + int col < o0 + int (shape1 msk)
                    \<and> o1 \<le> b1 + int row \<and> b1 + int row < o1 + int (shape0 msk)
                 then cells msk ! nat (b1 + int row - o1) ! nat (b0 + int col - o0)
                 else 0))"
  using copy_mask_cells [OF assms, of msk o0 o1] unfolding shaped_def by blast

theorem copy_mask_window_witness:
  "(0::int) \<le> 3 \<and> (0::int) \<le> 3 \<and>
   (\<exists>copy. copy_mask (NDArray 2 2 [[1, 0], [0, 1]]) (1, 1) (0, 0, 3, 3) = Some copy
      \<and> shape0 copy = 4 \<and> shape1 copy = 4
      \<and> cells copy ! 1 ! 1 = 1 \<and> cells copy ! 1 ! 2 = 0 \<and> cells copy ! 0 ! 0 = 0)"
proof -
  have h: "(0::int) \<le> 3" by simp
  from copy_mask_window [OF h h, of "NDArray 2 2 [[1, 0], [0, 1]]" 1 1]
  obtain copy where c: "copy_mask (NDArray 2 2 [[1, 0], [0, 1]]) (1, 1) (0, 0, 3, 3) = Some copy"
    "shape0 copy = 4" "shape1 copy = 4"
    "\<forall>row < 4. \<forall>col < 4. cells copy ! row ! col =
        (if 1 \<le> int col \<and> int col < 3 \<and> 1 \<le> int row \<and> int row < 3
         then [[1, 0], [0, 1]] ! nat (int row - 1) ! nat (int col - 1) else (0::pixel))"
    by auto
  have "cells copy ! 1 ! 1 = 1" "cells copy ! 1 ! 2 = 0" "cells copy ! 0 ! 0 = 0"
    using c(4) by simp_all
  with h c show ?thesis by blast
qed

subsection \<open>Rasterizing a polygon\<close>

lemma build_nodes_ok:
  assumes "length nodeX = length polygon"
  shows "\<exists>nx n j. build_nodes polygon pixelY nodeX = Some (nx, n, j)
           \<and> length nx = length polygon \<and> n \<le> length polygon"
proof -
  let ?P = "\<lambda>(i::nat) (s::int list \<times> nat \<times> nat). case s of (nx, n, j) \<Rightarrow>
      length nx = length polygon \<and> n \<le> i \<and> (j < length polygon \<or> length polygon = 0)"
  have "\<exists>s'. for_loop [0..<length polygon] (build_nodes_step polygon pixelY)
          (nodeX, 0, length polygon - 1) = Some s' \<and> ?P (length polygon) s'"
  proof (rule for_loop_upt_invariant [where P = ?P])
    show "?P 0 (nodeX, 0::nat, length polygon - 1)"
      using assms by auto
  next
    fix i s
    assume i: "i < length polygon" and inv: "?P i s"
    obtain nx n j where s: "s = (nx, n, j)"
      by (cases s) auto
    with inv i have f: "length nx = length polygon" "n \<le> i" "j < length polygon"
      by auto
    then show "\<exists>s'. build_nodes_step polygon pixelY i s = Some s' \<and> ?P (Suc i) s'"
      using i s by (auto simp: build_nodes_step_def rd_def)
  qed
  then show ?thesis
    by (auto simp: build_nodes_def)
qed

lemma bubble_ok:
  "nodes \<le> length nodeX \<Longrightarrow>
   \<exists>nx. bubble nodes i nodeX = Some nx \<and> length nx = length nodeX"
proof (induction nodes i nodeX rule: bubble.induct)
  case (1 nodes i nodeX)
  show ?case
  proof (cases "i + 1 < nodes")
    case False
    then show ?thesis
      by (subst bubble.simps) simp
  next
    case True
    with "1.prems" have len: "i + 1 < length nodeX"
      by simp
    show ?thesis
    proof (cases "nodeX ! i > nodeX ! (i + 1)")
      case gt: True
      have "\<exists>nx. bubble nodes (if i \<noteq> 0 then i - 1 else i)
                (nodeX[i := nodeX ! (i + 1), i + 1 := nodeX ! i]) = Some nx
              \<and> length nx = length (nodeX[i := nodeX ! (i + 1), i + 1 := nodeX ! i])"
        using "1.IH"(1) [OF True len gt] "1.prems" by simp
      then show ?thesis
        using True len gt by (subst bubble.simps) simp
    next
      case ngt: False
      have "\<exists>nx. bubble nodes (i + 1) nodeX = Some nx \<and> length nx = length nodeX"
        using "1.IH"(2) [OF True len ngt] "1.prems" by simp
      then show ?thesis
        using True len ngt by (subst bubble.simps) simp
    qed
  qed
qed

lemma fill_span_ok:
  assumes "shaped h w msk" "0 \<le> pixelY" "pixelY < int h" "0 \<le> a" "b < int w"
  shows "\<exists>m. for_loop [a..b] (\<lambda>j m. set2 m pixelY j 1) msk = Some m \<and> shaped h w m"
proof (rule for_loop_invariant [where I = "shaped h w"])
  show "shaped h w msk" by fact
next
  fix j s
  assume "j \<in> set [a..b]" "shaped h w s"
  then show "\<exists>s'. set2 s pixelY j 1 = Some s' \<and> shaped h w s'"
    using set2_shaped [of h w s pixelY j 1] assms by auto
qed



lemma fill_ok:
  "nodes \<le> length nodeX \<Longrightarrow> shaped h w msk \<Longrightarrow> 0 \<le> pixelY \<Longrightarrow> pixelY < int h \<Longrightarrow>
   width = int w \<Longrightarrow>
   \<exists>nx m. fill nodes width pixelY i nodeX msk = Some (nx, m)
      \<and> length nx = length nodeX \<and> shaped h w m"
proof (induction nodes width pixelY i nodeX msk rule: fill.induct)
  case (1 nodes width pixelY i nodeX msk)
  note prems = "1.prems"
  show ?case
  proof (cases "i + 1 < nodes")
    case False
    then show ?thesis
      using prems by (subst fill.simps) simp
  next
    case True
    with prems have len: "i + 1 < length nodeX"
      by simp
    show ?thesis
    proof (cases "nodeX ! i \<ge> width")
      case brk: True
      then show ?thesis
        using True len prems by (subst fill.simps) simp
    next
      case nbrk: False
      show ?thesis
      proof (cases "nodeX ! i = nodeX ! (i + 1) \<and> i + 2 < nodes")
        case cont: True
        have "\<exists>nx m. fill nodes width pixelY (i + 1) nodeX msk = Some (nx, m)
            \<and> length nx = length nodeX \<and> shaped h w m"
          using "1.IH"(1) [OF True len nbrk cont] prems by simp
        then show ?thesis
          using True len nbrk cont by (subst fill.simps) simp
      next
        case ncont: False
        show ?thesis
        proof (cases "nodeX ! (i + 1) \<ge> 0")
          case pos: True
          define x where "x = (if nodeX ! i < 0 then nodeX[i := 0] else nodeX)"
          define xa where "xa = (if width \<le> x ! (i + 1) then x[i + 1 := width - 1] else x)"
          have lx: "length xa = length nodeX"
            by (simp add: x_def xa_def)
          have "0 \<le> x ! i" "x ! (i + 1) = nodeX ! (i + 1)"
            using len by (auto simp: x_def)
          then have span: "0 \<le> xa ! i" "xa ! (i + 1) < int w"
            using len prems(5) by (auto simp: xa_def x_def)
          from fill_span_ok [OF prems(2,3,4) span]
          obtain x2 where x2: "for_loop [xa ! i..xa ! (i + 1)] (\<lambda>j m. set2 m pixelY j 1) msk = Some x2"
            "shaped h w x2"
            by blast
          have "\<exists>nx m. fill nodes width pixelY (i + 2) xa x2 = Some (nx, m)
              \<and> length nx = length xa \<and> shaped h w m"
            using "1.IH"(2) [OF True len nbrk ncont pos x_def xa_def x2(1)] prems lx x2(2)
            by simp
          moreover have "fill nodes width pixelY i nodeX msk =
              (case for_loop [xa ! i..xa ! (i + 1)] (\<lambda>j m. set2 m pixelY j 1) msk of
                 None \<Rightarrow> None
               | Some msk' \<Rightarrow> fill nodes width pixelY (i + 2) xa msk')"
            by (subst fill.simps)
              (simp only: True len nbrk ncont pos if_True if_False Let_def
                 x_def [symmetric] xa_def [symmetric])
          ultimately show ?thesis
            using x2(1) lx by simp
        next
          case npos: False
          have "\<exists>nx m. fill nodes width pixelY (i + 2) nodeX msk = Some (nx, m)
              \<and> length nx = length nodeX \<and> shaped h w m"
            using "1.IH"(3) [OF True len nbrk ncont npos] prems by simp
          moreover have "fill nodes width pixelY i nodeX msk
              = fill nodes width pixelY (i + 2) nodeX msk"
            by (subst fill.simps) (simp only: True len nbrk ncont npos if_True if_False)
          ultimately show ?thesis
            by simp
        qed
      qed
    qed
  qed
qed


lemma scanline_ok:
  assumes "length nodeX = length polygon" "shaped h w msk" "pixelY < h"
  shows "\<exists>nx m. scanline polygon (int w) pixelY (nodeX, msk) = Some (nx, m)
           \<and> length nx = length polygon \<and> shaped h w m"
proof -
  from build_nodes_ok [OF assms(1), of "int pixelY"]
  obtain nx1 n j where b: "build_nodes polygon (int pixelY) nodeX = Some (nx1, n, j)"
    "length nx1 = length polygon" "n \<le> length polygon"
    by blast
  then have n: "n \<le> length nx1"
    by simp
  from bubble_ok [OF n, of 0]
  obtain nx2 where s: "bubble n 0 nx1 = Some nx2" "length nx2 = length nx1"
    by blast
  then have n2: "n \<le> length nx2"
    using n by simp
  from fill_ok [OF n2 assms(2), of "int pixelY" "int w" 0] assms(3)
  obtain nx m where f: "fill n (int w) (int pixelY) 0 nx2 msk = Some (nx, m)"
    "length nx = length nx2" "shaped h w m"
    by auto
  with b s show ?thesis
    by (simp add: scanline_def)
qed

lemma rasterize_polygon_ok:
  assumes "b0 \<le> b2" "b1 \<le> b3"
  shows "\<exists>m. rasterize_polygon data (b0, b1, b2, b3) = Some m
           \<and> shaped (nat (b3 - b1 + 1)) (nat (b2 - b0 + 1)) m"
proof -
  define h w where "h = nat (b3 - b1 + 1)" and "w = nat (b2 - b0 + 1)"
  define polygon where "polygon = map (\<lambda>(x, y). (x - b0, y - b1)) data"
  have hw: "int h = b3 - b1 + 1" "int w = b2 - b0 + 1"
    using assms by (auto simp: h_def w_def)
  from shaped_zeros [of "b3 - b1 + 1" "b2 - b0 + 1"] assms
  obtain m0 where m0: "zeros (b3 - b1 + 1) (b2 - b0 + 1) = Some m0" "shaped h w m0"
    by (auto simp: h_def w_def)
  let ?I = "\<lambda>s :: int list \<times> ndarray. case s of (nx, m) \<Rightarrow>
      length nx = length polygon \<and> shaped h w m"
  have "\<exists>s'. for_loop [0..<h] (scanline polygon (int w)) (replicate (length data) 0, m0) = Some s'
      \<and> ?I s'"
  proof (rule for_loop_invariant [where I = ?I])
    show "?I (replicate (length data) 0, m0)"
      using m0 by (simp add: polygon_def)
  next
    fix i s
    assume "i \<in> set [0..<h]" "?I s"
    then show "\<exists>s'. scanline polygon (int w) i s = Some s' \<and> ?I s'"
      using scanline_ok [of "fst s" polygon h w "snd s" i] by (cases s) auto
  qed
  then obtain nx m where r: "for_loop [0..<h] (scanline polygon (int w))
      (replicate (length data) 0, m0) = Some (nx, m)" "shaped h w m"
    by auto
  have "rasterize_polygon data (b0, b1, b2, b3) = Some m"
    using m0(1) r(1) hw
    by (simp add: rasterize_polygon_def Let_def polygon_def [symmetric] h_def [symmetric])
  with r(2) show ?thesis
    unfolding h_def w_def by blast
qed

text \<open>
  C10. For a polygon with at least one vertex and a window with \<open>b0 \<le> b2\<close> and
  \<open>b1 \<le> b3\<close>, \<open>rasterize_polygon\<close> returns, and every array access it makes is in
  range (the model returns \<open>None\<close> at the first access that is not): the result is a
  valid array of the window's size. On every scanline the node-building loop stores at
  most \<open>N\<close> intercepts into the \<open>N\<close>-element intercept array. The sort and the fill loop
  are recursive functions with a termination proof, so the function is total.
\<close>

theorem rasterize_polygon_safe:
  assumes "data \<noteq> []" and "b0 \<le> b2" and "b1 \<le> b3"
  shows "(\<exists>m. rasterize_polygon data (b0, b1, b2, b3) = Some m
            \<and> shape0 m = nat (b3 - b1 + 1) \<and> shape1 m = nat (b2 - b0 + 1) \<and> valid_array m)
         \<and> (\<forall>pixelY nodeX. length nodeX = length data \<longrightarrow>
              (\<exists>nx nodes j.
                 build_nodes (map (\<lambda>(x, y). (x - b0, y - b1)) data) pixelY nodeX
                   = Some (nx, nodes, j)
                 \<and> nodes \<le> length data \<and> length nx = length data))"
proof
  show "\<exists>m. rasterize_polygon data (b0, b1, b2, b3) = Some m
            \<and> shape0 m = nat (b3 - b1 + 1) \<and> shape1 m = nat (b2 - b0 + 1) \<and> valid_array m"
    using rasterize_polygon_ok [OF assms(2,3), of data] unfolding shaped_def by blast
next
  show "\<forall>pixelY nodeX. length nodeX = length data \<longrightarrow>
              (\<exists>nx nodes j.
                 build_nodes (map (\<lambda>(x, y). (x - b0, y - b1)) data) pixelY nodeX
                   = Some (nx, nodes, j)
                 \<and> nodes \<le> length data \<and> length nx = length data)"
  proof (intro allI impI)
    fix pixelY and nodeX :: "int list"
    assume "length nodeX = length data"
    then have "length nodeX = length (map (\<lambda>(x, y). (x - b0, y - b1)) data)"
      by simp
    from build_nodes_ok [OF this, of pixelY]
    show "\<exists>nx nodes j.
                 build_nodes (map (\<lambda>(x, y). (x - b0, y - b1)) data) pixelY nodeX
                   = Some (nx, nodes, j)
                 \<and> nodes \<le> length data \<and> length nx = length data"
      by auto
  qed
qed

theorem rasterize_polygon_safe_witness:
  "[(0, 0), (4, 0), (0, 4)] \<noteq> ([] :: point list) \<and> (0::int) \<le> 4 \<and>
   (\<exists>m. rasterize_polygon [(0, 0), (4, 0), (0, 4)] (0, 0, 4, 4) = Some m
      \<and> shape0 m = 5 \<and> shape1 m = 5 \<and> valid_array m) \<and>
   (\<exists>nx nodes j. build_nodes [(0, 0), (4, 0), (0, 4)] 2 [0, 0, 0] = Some (nx, nodes, j)
      \<and> nodes \<le> 3)"
proof -
  have h: "[(0, 0), (4, 0), (0, 4)] \<noteq> ([] :: point list)" "(0::int) \<le> 4"
    by simp_all
  from rasterize_polygon_safe [OF h(1) h(2) h(2)]
  have a: "\<exists>m. rasterize_polygon [(0, 0), (4, 0), (0, 4)] (0, 0, 4, 4) = Some m
      \<and> shape0 m = 5 \<and> shape1 m = 5 \<and> valid_array m"
    and b: "\<forall>pixelY nodeX. length nodeX = length [(0::int, 0::int), (4, 0), (0, 4)] \<longrightarrow>
              (\<exists>nx nodes j.
                 build_nodes (map (\<lambda>(x, y). (x - 0, y - 0)) [(0, 0), (4, 0), (0, 4)]) pixelY nodeX
                   = Some (nx, nodes, j)
                 \<and> nodes \<le> length [(0::int, 0::int), (4, 0), (0, 4)]
                 \<and> length nx = length [(0::int, 0::int), (4, 0), (0, 4)])"
    by simp_all
  from b [rule_format, of "[0, 0, 0]" 2]
  have "\<exists>nx nodes j. build_nodes [(0, 0), (4, 0), (0, 4)] 2 [0, 0, 0] = Some (nx, nodes, j)
      \<and> nodes \<le> 3"
    by auto
  with h a show ?thesis by blast
qed

subsection \<open>Degenerate unions\<close>

lemma kernel_degenerate_union:
  "degenerate (union_bounds (region_bounds a) (region_bounds b)) \<Longrightarrow>
   calculate_overlap_kernel a b frame ignore = Some 1"
  by (simp add: calculate_overlap_kernel_def)

lemma calculate_overlap_kernel_eq:
  "calculate_overlap a b frame ignore = calculate_overlap_kernel a b frame ignore"
  by (simp add: calculate_overlap_def split: option.splits)

text \<open>
  When the componentwise union \<open>(l, t, r, bt)\<close> of the two bounding boxes has
  \<open>l \<ge> r\<close> or \<open>t \<ge> bt\<close>, the overlap is exactly 1, whatever the frame and the ignore
  region are: the test comes before clipping and before the ignore region is looked
  at. The overlap of two regions of the empty variant (type tag \<open>_TYPE_EMPTY\<close>, bounds
  \<open>(0, 0, 0, 0)\<close>) is therefore 1 for every frame and every ignore region.
\<close>

theorem overlap_degenerate_union:
  "(union_bounds (region_bounds a) (region_bounds b) = (l, t, r, bt) \<and> (l \<ge> r \<or> t \<ge> bt)
      \<longrightarrow> calculate_overlap a b frame ignore = Some 1)
   \<and> calculate_overlap Empty Empty frame ignore = Some 1"
proof
  show "union_bounds (region_bounds a) (region_bounds b) = (l, t, r, bt) \<and> (l \<ge> r \<or> t \<ge> bt)
      \<longrightarrow> calculate_overlap a b frame ignore = Some 1"
  proof
    assume h: "union_bounds (region_bounds a) (region_bounds b) = (l, t, r, bt) \<and> (l \<ge> r \<or> t \<ge> bt)"
    then have "degenerate (union_bounds (region_bounds a) (region_bounds b))"
      by (auto simp: degenerate_def)
    then show "calculate_overlap a b frame ignore = Some 1"
      by (simp only: calculate_overlap_kernel_eq kernel_degenerate_union)
  qed
next
  have "degenerate (union_bounds (region_bounds Empty) (region_bounds Empty))"
    by (simp add: degenerate_def union_bounds_def)
  then show "calculate_overlap Empty Empty frame ignore = Some 1"
    by (simp only: calculate_overlap_kernel_eq kernel_degenerate_union)
qed

theorem overlap_degenerate_union_witness:
  "union_bounds (region_bounds (Rectangle 0 0 1 5)) (region_bounds (Rectangle 0 2 1 5)) = (0, 0, 0, 6)
   \<and> ((0::int) \<ge> 0 \<or> (0::int) \<ge> 6)
   \<and> calculate_overlap (Rectangle 0 0 1 5) (Rectangle 0 2 1 5) (Some (10, 10))
        (Some (Rectangle 0 0 3 3)) = Some 1"
proof -
  have h: "union_bounds (region_bounds (Rectangle 0 0 1 5)) (region_bounds (Rectangle 0 2 1 5))
      = (0, 0, 0, 6)"
    by (simp add: union_bounds_def bounds_rectangle_def)
  show ?thesis
    using h overlap_degenerate_union [of "Rectangle 0 0 1 5" "Rectangle 0 2 1 5" 0 0 0 6
        "Some (10, 10)" "Some (Rectangle 0 0 3 3)"]
    by simp
qed

subsection \<open>Rasterizing any region\<close>

lemma assign_slice_shaped:
  "shaped h w m \<Longrightarrow> shaped h w (assign_slice m r0 r1 c0 c1 v)"
  by (auto simp: shaped_def valid_array_def assign_slice_def Let_def list_all_iff)

lemma rasterize_rectangle_ok:
  assumes "b0 \<le> b2" "b1 \<le> b3"
  shows "\<exists>m. rasterize_rectangle (x, y, w, h) (b0, b1, b2, b3) = Some m
           \<and> shaped (nat (b3 - b1 + 1)) (nat (b2 - b0 + 1)) m"
proof -
  from shaped_zeros [of "b3 - b1 + 1" "b2 - b0 + 1"] assms
  obtain m0 where "zeros (b3 - b1 + 1) (b2 - b0 + 1) = Some m0"
    "shaped (nat (b3 - b1 + 1)) (nat (b2 - b0 + 1)) m0"
    by auto
  then show ?thesis
    by (simp add: rasterize_rectangle_def Let_def assign_slice_shaped)
qed

lemma assign_slice_cells:
  assumes "shaped h w m" "r < h" "c < w"
  shows "cells (assign_slice m r0 r1 c0 c1 v) ! r ! c =
           (if slice_index h r0 \<le> r \<and> r < slice_index h r1
                \<and> slice_index w c0 \<le> c \<and> c < slice_index w c1
            then v else cells m ! r ! c)"
  using assms by (auto simp: assign_slice_def shaped_def Let_def)

text \<open>
  On a window whose left and top coordinates are not negative the rectangle is
  rasterized as intended: a cell is 1 exactly when its pixel lies in the rectangle's
  box. (There \<open>bounds[2]\<close> and \<open>bounds[3]\<close> are at least the last column and row of the
  window, and a slice that ends beyond the array is cut at its end.)
\<close>

lemma rasterize_rectangle_cells:
  assumes nn: "0 \<le> b0" "0 \<le> b1" and wf: "b0 \<le> b2" "b1 \<le> b3"
  shows "\<exists>m. rasterize_rectangle (x, y, w, h) (b0, b1, b2, b3) = Some m
           \<and> shaped (nat (b3 - b1 + 1)) (nat (b2 - b0 + 1)) m
           \<and> (\<forall>row < nat (b3 - b1 + 1). \<forall>col < nat (b2 - b0 + 1). cells m ! row ! col =
                (if x \<le> b0 + int col \<and> b0 + int col \<le> x + w - 1
                    \<and> y \<le> b1 + int row \<and> b1 + int row \<le> y + h - 1
                 then 1 else 0))"
proof -
  define H W where "H = nat (b3 - b1 + 1)" and "W = nat (b2 - b0 + 1)"
  have HW: "int H = b3 - b1 + 1" "int W = b2 - b0 + 1"
    using wf by (auto simp: H_def W_def)
  from shaped_zeros [of "b3 - b1 + 1" "b2 - b0 + 1"] wf
  obtain m0 where m0: "zeros (b3 - b1 + 1) (b2 - b0 + 1) = Some m0" "shaped H W m0"
    "\<forall>i<H. \<forall>j<W. cells m0 ! i ! j = 0"
    by (auto simp: H_def W_def)
  show ?thesis
  proof (cases "x > b2 \<or> x + w - 1 < b0 \<or> y > b3 \<or> y + h - 1 < b1")
    case True
    then have "rasterize_rectangle (x, y, w, h) (b0, b1, b2, b3) = Some m0"
      using m0(1) by (simp add: rasterize_rectangle_def Let_def)
    moreover have "\<forall>row<H. \<forall>col<W. \<not> (x \<le> b0 + int col \<and> b0 + int col \<le> x + w - 1
                    \<and> y \<le> b1 + int row \<and> b1 + int row \<le> y + h - 1)"
      using True HW by auto
    ultimately show ?thesis
      using m0(2,3) unfolding H_def W_def by auto
  next
    case False
    define lf tp rg bm where "lf = max 0 (x - b0)" and "tp = max 0 (y - b1)"
      and "rg = min b2 (x + w - 1 - b0)" and "bm = min b3 (y + h - 1 - b1)"
    have r: "rasterize_rectangle (x, y, w, h) (b0, b1, b2, b3)
        = Some (assign_slice m0 tp (bm + 1) lf (rg + 1) 1)"
      using False m0(1) by (simp add: rasterize_rectangle_def Let_def lf_def tp_def rg_def bm_def)
    have sh: "shaped H W (assign_slice m0 tp (bm + 1) lf (rg + 1) 1)"
      using m0(2) by (rule assign_slice_shaped)
    have "\<forall>row<H. \<forall>col<W. cells (assign_slice m0 tp (bm + 1) lf (rg + 1) 1) ! row ! col =
                (if x \<le> b0 + int col \<and> b0 + int col \<le> x + w - 1
                    \<and> y \<le> b1 + int row \<and> b1 + int row \<le> y + h - 1
                 then 1 else 0)"
    proof (intro allI impI)
      fix row col assume rc: "row < H" "col < W"
      have rows: "(slice_index H tp \<le> row \<and> row < slice_index H (bm + 1))
          = (y \<le> b1 + int row \<and> b1 + int row \<le> y + h - 1)"
        using rc HW nn False by (auto simp: slice_index_def tp_def bm_def)
      have cols: "(slice_index W lf \<le> col \<and> col < slice_index W (rg + 1))
          = (x \<le> b0 + int col \<and> b0 + int col \<le> x + w - 1)"
        using rc HW nn False by (auto simp: slice_index_def lf_def rg_def)
      have "cells (assign_slice m0 tp (bm + 1) lf (rg + 1) 1) ! row ! col =
          (if (slice_index H tp \<le> row \<and> row < slice_index H (bm + 1))
                \<and> (slice_index W lf \<le> col \<and> col < slice_index W (rg + 1))
            then 1 else cells m0 ! row ! col)"
        using assign_slice_cells [OF m0(2) rc, of tp "bm + 1" lf "rg + 1" 1] by simp
      also have "\<dots> = (if (y \<le> b1 + int row \<and> b1 + int row \<le> y + h - 1)
                \<and> (x \<le> b0 + int col \<and> b0 + int col \<le> x + w - 1)
            then 1 else 0)"
        using m0(3) rc by (simp only: rows cols)
      finally show "cells (assign_slice m0 tp (bm + 1) lf (rg + 1) 1) ! row ! col =
                (if x \<le> b0 + int col \<and> b0 + int col \<le> x + w - 1
                    \<and> y \<le> b1 + int row \<and> b1 + int row \<le> y + h - 1
                 then 1 else 0)"
        by (simp add: conj_ac)
    qed
    with r sh show ?thesis
      unfolding H_def W_def by blast
  qed
qed

lemma region_raster_ok:
  assumes "b0 \<le> b2" "b1 \<le> b3"
  shows "\<exists>m. region_raster a (b0, b1, b2, b3) = Some m
           \<and> shaped (nat (b3 - b1 + 1)) (nat (b2 - b0 + 1)) m"
proof (cases a)
  case Empty
  then show ?thesis
    using shaped_zeros [of "b3 - b1 + 1" "b2 - b0 + 1"] assms by auto
next
  case (Rectangle x y w h)
  then show ?thesis
    using rasterize_rectangle_ok [OF assms] by simp
next
  case (Polygon ps)
  then show ?thesis
    using rasterize_polygon_ok [OF assms] by simp
next
  case (Mask m off)
  then show ?thesis
    using copy_mask_cells [OF assms, of m "fst off" "snd off"] by auto
qed

subsection \<open>The counting loops\<close>

lemma length_concat_uniform:
  "\<forall>r \<in> set xs. length r = w \<Longrightarrow> length (concat xs) = length xs * w"
  by (induction xs) auto

lemma length_ravel:
  "shaped h w m \<Longrightarrow> length (ravel m) = h * w"
  using length_concat_uniform [of "cells m" w]
  by (auto simp: shaped_def valid_array_def ravel_def list_all_iff)

lemma count_step_commute:
  "count_step a1 a2 i s = count_step a2 a1 i s"
  by (cases s) (auto simp: count_step_def rd_def)

lemma count_step_ok:
  assumes "i < length a1" "i < length a2" "n \<le> u"
  shows "\<exists>n' u'. count_step a1 a2 i (n, u) = Some (n', u') \<and> n' \<le> u'"
  using assms by (auto simp: count_step_def rd_def)

lemma count_step_ignore_ok:
  assumes "i < length a1" "i < length a2" "i < length a3" "n \<le> u"
  shows "\<exists>n' u'. count_step_ignore a1 a2 a3 i (n, u) = Some (n', u') \<and> n' \<le> u'"
proof (cases "a3 ! i = 0")
  case True
  then show ?thesis
    using assms count_step_ok [of i a1 a2 n u] by (simp add: count_step_ignore_def rd_def)
next
  case False
  then show ?thesis
    using assms by (simp add: count_step_ignore_def rd_def)
qed

lemma count_pixels_ok:
  assumes rb: "b0 \<le> b2" "b1 \<le> b3"
    and len: "length a1 = nat (b3 - b1 + 1) * nat (b2 - b0 + 1)"
      "length a2 = nat (b3 - b1 + 1) * nat (b2 - b0 + 1)"
  shows "\<exists>s. count_pixels ignore (b0, b1, b2, b3) a1 a2 = Some s \<and> fst s \<le> snd s"
proof -
  have plain: "\<exists>s. for_loop [0..<length a1] (count_step a1 a2) (0, 0) = Some s \<and> fst s \<le> snd s"
    by (rule for_loop_invariant [where I = "\<lambda>s. fst s \<le> snd s"])
      (use len in \<open>auto intro!: count_step_ok\<close>)
  show ?thesis
  proof (cases "\<exists>ig. ignore = Some ig \<and> region_type ig \<noteq> TYPE_EMPTY")
    case False
    then show ?thesis
      using plain by (auto simp: count_pixels_def split: option.splits)
  next
    case True
    then obtain ig where ig: "ignore = Some ig" "region_type ig \<noteq> TYPE_EMPTY"
      by blast
    from region_raster_ok [OF rb, of ig]
    obtain m3 where m3: "region_raster ig (b0, b1, b2, b3) = Some m3"
      "shaped (nat (b3 - b1 + 1)) (nat (b2 - b0 + 1)) m3"
      by blast
    then have l3: "length (ravel m3) = length a1"
      using len by (simp add: length_ravel)
    have "\<exists>s. for_loop [0..<length a1] (count_step_ignore a1 a2 (ravel m3)) (0, 0) = Some s
        \<and> fst s \<le> snd s"
      by (rule for_loop_invariant [where I = "\<lambda>s. fst s \<le> snd s"])
        (use len l3 in \<open>auto intro!: count_step_ignore_ok\<close>)
    then show ?thesis
      using ig m3(1) by (simp add: count_pixels_def)
  qed
qed

lemma count_pixels_commute:
  "length a1 = length a2 \<Longrightarrow> count_pixels ignore rb a1 a2 = count_pixels ignore rb a2 a1"
proof -
  assume len: "length a1 = length a2"
  have 1: "count_step a1 a2 = count_step a2 a1"
    by (intro ext) (rule count_step_commute)
  have 2: "count_step_ignore a1 a2 a3 = count_step_ignore a2 a1 a3" for a3
    by (intro ext) (simp only: count_step_ignore_def 1)
  show ?thesis
    unfolding count_pixels_def len 1 2 ..
qed

lemma ratio_range:
  "fst s \<le> snd s \<Longrightarrow> \<exists>r. ratio s = Some r \<and> 0 \<le> r \<and> r \<le> 1"
  by (cases s) (auto simp: ratio_def float_div_def divide_le_eq_1)


subsection \<open>The overlap kernel\<close>

lemma union_bounds_commute:
  "union_bounds x y = union_bounds y x"
  by (cases x; cases y) (simp add: union_bounds_def min.commute max.commute)

lemma kernel_nondegenerate:
  assumes un: "\<not> degenerate (union_bounds (region_bounds a) (region_bounds b))"
    and rb: "raster_bounds frame (union_bounds (region_bounds a) (region_bounds b)) = (r0, r1, r2, r3)"
    and nd: "r0 < r2" "r1 < r3"
  shows "\<exists>m1 m2. region_raster a (r0, r1, r2, r3) = Some m1
            \<and> region_raster b (r0, r1, r2, r3) = Some m2
            \<and> shaped (nat (r3 - r1 + 1)) (nat (r2 - r0 + 1)) m1
            \<and> shaped (nat (r3 - r1 + 1)) (nat (r2 - r0 + 1)) m2
            \<and> calculate_overlap_kernel a b frame ignore =
                (case count_pixels ignore (r0, r1, r2, r3) (ravel m1) (ravel m2) of
                   None \<Rightarrow> None | Some s \<Rightarrow> ratio s)"
proof -
  have le: "r0 \<le> r2" "r1 \<le> r3"
    using nd by auto
  from region_raster_ok [OF le, of a]
  obtain m1 where m1: "region_raster a (r0, r1, r2, r3) = Some m1"
    "shaped (nat (r3 - r1 + 1)) (nat (r2 - r0 + 1)) m1"
    by blast
  from region_raster_ok [OF le, of b]
  obtain m2 where m2: "region_raster b (r0, r1, r2, r3) = Some m2"
    "shaped (nat (r3 - r1 + 1)) (nat (r2 - r0 + 1)) m2"
    by blast
  have "\<not> degenerate (r0, r1, r2, r3)"
    using nd by (simp add: degenerate_def)
  then have "calculate_overlap_kernel a b frame ignore =
      (case count_pixels ignore (r0, r1, r2, r3) (ravel m1) (ravel m2) of
         None \<Rightarrow> None | Some s \<Rightarrow> ratio s)"
    using un rb m1(1) m2(1)
    by (simp add: calculate_overlap_kernel_def Let_def split: option.splits)
  with m1 m2 show ?thesis
    by blast
qed

lemma degenerate_cases:
  obtains (deg) "degenerate rb" | (nondeg) r0 r1 r2 r3 where "rb = (r0, r1, r2, r3)" "r0 < r2" "r1 < r3"
proof (cases rb)
  case (fields r0 r1 r2 r3)
  show thesis
  proof (cases "r0 < r2 \<and> r1 < r3")
    case True
    with fields show thesis by (intro nondeg) auto
  next
    case False
    with fields show thesis by (intro deg) (auto simp: degenerate_def)
  qed
qed

lemma kernel_range:
  "\<exists>r. calculate_overlap_kernel a b frame ignore = Some r \<and> 0 \<le> r \<and> r \<le> 1"
proof (cases "degenerate (union_bounds (region_bounds a) (region_bounds b))")
  case True
  then show ?thesis
    by (simp add: calculate_overlap_kernel_def)
next
  case un: False
  show ?thesis
  proof (cases "raster_bounds frame (union_bounds (region_bounds a) (region_bounds b))"
      rule: degenerate_cases)
    case deg
    then show ?thesis
      using un by (simp add: calculate_overlap_kernel_def Let_def)
  next
    case (nondeg r0 r1 r2 r3)
    from kernel_nondegenerate [OF un nondeg, of ignore]
    obtain m1 m2 where m: "shaped (nat (r3 - r1 + 1)) (nat (r2 - r0 + 1)) m1"
      "shaped (nat (r3 - r1 + 1)) (nat (r2 - r0 + 1)) m2"
      "calculate_overlap_kernel a b frame ignore =
         (case count_pixels ignore (r0, r1, r2, r3) (ravel m1) (ravel m2) of
            None \<Rightarrow> None | Some s \<Rightarrow> ratio s)"
      by blast
    have le: "r0 \<le> r2" "r1 \<le> r3"
      using nondeg by auto
    from count_pixels_ok [OF le length_ravel [OF m(1)] length_ravel [OF m(2)], of ignore]
    obtain s where s: "count_pixels ignore (r0, r1, r2, r3) (ravel m1) (ravel m2) = Some s"
      "fst s \<le> snd s"
      by blast
    then show ?thesis
      using m(3) ratio_range [OF s(2)] by simp
  qed
qed

lemma kernel_commute:
  "calculate_overlap_kernel a b frame ignore = calculate_overlap_kernel b a frame ignore"
proof (cases "degenerate (union_bounds (region_bounds a) (region_bounds b))")
  case True
  then show ?thesis
    by (simp add: calculate_overlap_kernel_def union_bounds_commute [of "region_bounds b"])
next
  case un: False
  then have un': "\<not> degenerate (union_bounds (region_bounds b) (region_bounds a))"
    by (simp add: union_bounds_commute)
  show ?thesis
  proof (cases "raster_bounds frame (union_bounds (region_bounds a) (region_bounds b))"
      rule: degenerate_cases)
    case deg
    then show ?thesis
      using un by (simp add: calculate_overlap_kernel_def Let_def union_bounds_commute [of "region_bounds b"])
  next
    case (nondeg r0 r1 r2 r3)
    then have nondeg': "raster_bounds frame (union_bounds (region_bounds b) (region_bounds a))
        = (r0, r1, r2, r3)"
      by (simp add: union_bounds_commute)
    from kernel_nondegenerate [OF un nondeg, of ignore]
    obtain m1 m2 where m: "region_raster a (r0, r1, r2, r3) = Some m1"
      "region_raster b (r0, r1, r2, r3) = Some m2"
      "shaped (nat (r3 - r1 + 1)) (nat (r2 - r0 + 1)) m1"
      "shaped (nat (r3 - r1 + 1)) (nat (r2 - r0 + 1)) m2"
      "calculate_overlap_kernel a b frame ignore =
         (case count_pixels ignore (r0, r1, r2, r3) (ravel m1) (ravel m2) of
            None \<Rightarrow> None | Some s \<Rightarrow> ratio s)"
      by blast
    from kernel_nondegenerate [OF un' nondeg' nondeg(2,3), of ignore] m(1,2)
    have "calculate_overlap_kernel b a frame ignore =
         (case count_pixels ignore (r0, r1, r2, r3) (ravel m2) (ravel m1) of
            None \<Rightarrow> None | Some s \<Rightarrow> ratio s)"
      by auto
    moreover have "length (ravel m1) = length (ravel m2)"
      using m(3,4) by (simp add: length_ravel)
    ultimately show ?thesis
      using m(5) count_pixels_commute [of "ravel m1" "ravel m2" ignore "(r0, r1, r2, r3)"]
      by simp
  qed
qed

lemma kernel_ignore_everywhere:
  assumes un: "\<not> degenerate (union_bounds (region_bounds a) (region_bounds b))"
    and ty: "region_type ig \<noteq> TYPE_EMPTY"
    and m3: "region_raster ig (raster_bounds frame (union_bounds (region_bounds a) (region_bounds b)))
        = Some m3"
    and all: "\<forall>p \<in> set (ravel m3). p \<noteq> 0"
  shows "calculate_overlap_kernel a b frame (Some ig) = Some 0"
proof (cases "raster_bounds frame (union_bounds (region_bounds a) (region_bounds b))"
      rule: degenerate_cases)
  case deg
  then show ?thesis
    using un by (simp add: calculate_overlap_kernel_def Let_def)
next
  case (nondeg r0 r1 r2 r3)
  from kernel_nondegenerate [OF un nondeg, of "Some ig"]
  obtain m1 m2 where m: "shaped (nat (r3 - r1 + 1)) (nat (r2 - r0 + 1)) m1"
    "calculate_overlap_kernel a b frame (Some ig) =
       (case count_pixels (Some ig) (r0, r1, r2, r3) (ravel m1) (ravel m2) of
          None \<Rightarrow> None | Some s \<Rightarrow> ratio s)"
    by blast
  have le: "r0 \<le> r2" "r1 \<le> r3"
    using nondeg by auto
  from region_raster_ok [OF le, of ig] m3 nondeg(1)
  have "shaped (nat (r3 - r1 + 1)) (nat (r2 - r0 + 1)) m3"
    by auto
  then have len: "length (ravel m3) = length (ravel m1)"
    using m(1) by (simp add: length_ravel)
  have "for_loop [0..<length (ravel m1)] (count_step_ignore (ravel m1) (ravel m2) (ravel m3)) (0, 0)
      = Some (0, 0)"
  proof (rule for_loop_skip)
    fix i assume "i \<in> set [0..<length (ravel m1)]"
    then have "i < length (ravel m3)"
      using len by simp
    moreover from this have "ravel m3 ! i \<noteq> 0"
      using all by (meson nth_mem)
    ultimately show "count_step_ignore (ravel m1) (ravel m2) (ravel m3) i (0, 0) = Some (0, 0)"
      by (simp add: count_step_ignore_def rd_def)
  qed
  then have "count_pixels (Some ig) (r0, r1, r2, r3) (ravel m1) (ravel m2) = Some (0, 0)"
    using ty m3 nondeg(1) by (simp add: count_pixels_def)
  then show ?thesis
    using m(2) by (simp add: ratio_def)
qed


text \<open>
  C5. Swapping the first two arguments of \<open>calculate_overlap\<close> never changes the
  result, whatever the two regions, the frame and the ignore region are.
\<close>

theorem overlap_symmetric:
  "calculate_overlap a b frame ignore = calculate_overlap b a frame ignore"
  unfolding calculate_overlap_kernel_eq by (rule kernel_commute)

lemma kernel_zero_union:
  assumes un: "\<not> degenerate (union_bounds (region_bounds a) (region_bounds b))"
    and rb: "\<not> degenerate (raster_bounds frame (union_bounds (region_bounds a) (region_bounds b)))"
    and m1: "region_raster a (raster_bounds frame (union_bounds (region_bounds a) (region_bounds b)))
        = Some m1"
    and m2: "region_raster b (raster_bounds frame (union_bounds (region_bounds a) (region_bounds b)))
        = Some m2"
    and cnt: "count_pixels ignore (raster_bounds frame (union_bounds (region_bounds a) (region_bounds b)))
        (ravel m1) (ravel m2) = Some (n, 0)"
  shows "calculate_overlap_kernel a b frame ignore = Some 0"
  using assms by (simp add: calculate_overlap_kernel_def Let_def ratio_def)

text \<open>
  C6. For all regions, every frame and every ignore region \<open>calculate_overlap\<close>
  returns a number in \<open>[0, 1]\<close>: no array access is out of range and no division by zero
  is attempted. When the two rasters are counted (neither the union of the boxes nor
  the raster bounds is degenerate) and the counting loop ends with a union count of
  zero, the result is exactly 0.
\<close>

theorem overlap_range:
  "(\<exists>r. calculate_overlap a b frame ignore = Some r \<and> 0 \<le> r \<and> r \<le> 1)
   \<and> (\<not> degenerate (union_bounds (region_bounds a) (region_bounds b))
      \<and> \<not> degenerate (raster_bounds frame (union_bounds (region_bounds a) (region_bounds b)))
      \<and> region_raster a (raster_bounds frame (union_bounds (region_bounds a) (region_bounds b)))
          = Some m1
      \<and> region_raster b (raster_bounds frame (union_bounds (region_bounds a) (region_bounds b)))
          = Some m2
      \<and> count_pixels ignore (raster_bounds frame (union_bounds (region_bounds a) (region_bounds b)))
          (ravel m1) (ravel m2) = Some (intersection, 0)
      \<longrightarrow> calculate_overlap a b frame ignore = Some 0)"
  using kernel_range [of a b frame ignore] kernel_zero_union [of a b frame m1 m2 ignore intersection]
  by (simp add: calculate_overlap_kernel_eq)

theorem overlap_range_witness:
  "\<not> degenerate (union_bounds (region_bounds (Rectangle 0 0 0 0)) (region_bounds (Rectangle 2 2 0 0)))
   \<and> \<not> degenerate (raster_bounds None
         (union_bounds (region_bounds (Rectangle 0 0 0 0)) (region_bounds (Rectangle 2 2 0 0))))
   \<and> region_raster (Rectangle 0 0 0 0) (raster_bounds None
         (union_bounds (region_bounds (Rectangle 0 0 0 0)) (region_bounds (Rectangle 2 2 0 0))))
       = Some (NDArray 2 2 [[0, 0], [0, 0]])
   \<and> region_raster (Rectangle 2 2 0 0) (raster_bounds None
         (union_bounds (region_bounds (Rectangle 0 0 0 0)) (region_bounds (Rectangle 2 2 0 0))))
       = Some (NDArray 2 2 [[0, 0], [0, 0]])
   \<and> count_pixels None (raster_bounds None
         (union_bounds (region_bounds (Rectangle 0 0 0 0)) (region_bounds (Rectangle 2 2 0 0))))
         (ravel (NDArray 2 2 [[0, 0], [0, 0]])) (ravel (NDArray 2 2 [[0, 0], [0, 0]])) = Some (0, 0)
   \<and> calculate_overlap (Rectangle 0 0 0 0) (Rectangle 2 2 0 0) None None = Some 0"
proof -
  have h: "\<not> degenerate (union_bounds (region_bounds (Rectangle 0 0 0 0)) (region_bounds (Rectangle 2 2 0 0)))
   \<and> \<not> degenerate (raster_bounds None
         (union_bounds (region_bounds (Rectangle 0 0 0 0)) (region_bounds (Rectangle 2 2 0 0))))
   \<and> region_raster (Rectangle 0 0 0 0) (raster_bounds None
         (union_bounds (region_bounds (Rectangle 0 0 0 0)) (region_bounds (Rectangle 2 2 0 0))))
       = Some (NDArray 2 2 [[0, 0], [0, 0]])
   \<and> region_raster (Rectangle 2 2 0 0) (raster_bounds None
         (union_bounds (region_bounds (Rectangle 0 0 0 0)) (region_bounds (Rectangle 2 2 0 0))))
       = Some (NDArray 2 2 [[0, 0], [0, 0]])
   \<and> count_pixels None (raster_bounds None
         (union_bounds (region_bounds (Rectangle 0 0 0 0)) (region_bounds (Rectangle 2 2 0 0))))
         (ravel (NDArray 2 2 [[0, 0], [0, 0]])) (ravel (NDArray 2 2 [[0, 0], [0, 0]])) = Some (0, 0)"
    by code_simp
  from overlap_range [of "Rectangle 0 0 0 0" "Rectangle 2 2 0 0" None None
      "NDArray 2 2 [[0, 0], [0, 0]]" "NDArray 2 2 [[0, 0], [0, 0]]" 0]
  have "calculate_overlap (Rectangle 0 0 0 0) (Rectangle 2 2 0 0) None None = Some 0"
    using h by blast
  with h show ?thesis
    by blast
qed

text \<open>
  C7, as stated, fails when the union of the two bounding boxes is degenerate: the
  function returns 1 before it looks at the ignore region. Two rectangles one pixel
  wide have the union \<open>(0, 0, 0, 4)\<close>; the ignore region rasterizes to 1 on each of its
  five pixels, and the overlap is 1, not 0.
\<close>

theorem overlap_ignore_everywhere_counterexample:
  "region_type (Rectangle 0 0 1 5) \<noteq> TYPE_EMPTY
   \<and> region_raster (Rectangle 0 0 1 5)
       (raster_bounds None
          (union_bounds (region_bounds (Rectangle 0 0 1 5)) (region_bounds (Rectangle 0 0 1 5))))
     = Some (NDArray 5 1 [[1], [1], [1], [1], [1]])
   \<and> calculate_overlap (Rectangle 0 0 1 5) (Rectangle 0 0 1 5) None (Some (Rectangle 0 0 1 5))
     = Some 1
   \<and> calculate_overlap (Rectangle 0 0 1 5) (Rectangle 0 0 1 5) None (Some (Rectangle 0 0 1 5))
     \<noteq> Some 0"
  by code_simp

text \<open>
  C7, amended. If the union \<open>(l, t, r, bt)\<close> of the two bounding boxes is not
  degenerate (\<open>l < r\<close> and \<open>t < bt\<close>), the ignore region is not of the empty type, and it
  rasterizes to a non-zero value (such as 1) on every pixel of the raster bounds, then
  the overlap is 0: every pixel is skipped and the union count stays 0.
\<close>

theorem overlap_ignore_everywhere:
  assumes "union_bounds (region_bounds a) (region_bounds b) = (l, t, r, bt)"
    and "l < r" and "t < bt"
    and "region_type ig \<noteq> TYPE_EMPTY"
    and "region_raster ig (raster_bounds frame (l, t, r, bt)) = Some m3"
    and "\<forall>p \<in> set (ravel m3). p \<noteq> 0"
  shows "calculate_overlap a b frame (Some ig) = Some 0"
proof -
  have "\<not> degenerate (union_bounds (region_bounds a) (region_bounds b))"
    using assms(1,2,3) by (simp add: degenerate_def)
  then show ?thesis
    using assms(1,4,5,6) kernel_ignore_everywhere [of a b ig frame m3]
    by (simp add: calculate_overlap_kernel_eq)
qed

theorem overlap_ignore_everywhere_witness:
  "union_bounds (region_bounds (Rectangle 0 0 2 2)) (region_bounds (Rectangle 1 1 2 2)) = (0, 0, 2, 2)
   \<and> (0::int) < 2
   \<and> region_type (Rectangle 0 0 3 3) \<noteq> TYPE_EMPTY
   \<and> region_raster (Rectangle 0 0 3 3) (raster_bounds None (0, 0, 2, 2))
       = Some (NDArray 3 3 [[1, 1, 1], [1, 1, 1], [1, 1, 1]])
   \<and> set (ravel (NDArray 3 3 [[1, 1, 1], [1, 1, 1], [1, 1, 1]])) = {1}
   \<and> calculate_overlap (Rectangle 0 0 2 2) (Rectangle 1 1 2 2) None (Some (Rectangle 0 0 3 3))
       = Some 0"
proof -
  have h1: "union_bounds (region_bounds (Rectangle 0 0 2 2)) (region_bounds (Rectangle 1 1 2 2))
      = (0, 0, 2, 2)"
    by (simp add: union_bounds_def bounds_rectangle_def)
  have h2: "(0::int) < 2"
    by simp
  have h3: "region_type (Rectangle 0 0 3 3) \<noteq> TYPE_EMPTY"
    by (simp add: TYPE_EMPTY_def TYPE_RECTANGLE_def)
  have h4: "region_raster (Rectangle 0 0 3 3) (raster_bounds None (0, 0, 2, 2))
       = Some (NDArray 3 3 [[1, 1, 1], [1, 1, 1], [1, 1, 1]])"
    by code_simp
  have h5: "\<forall>p \<in> set (ravel (NDArray 3 3 [[1, 1, 1], [1, 1, 1], [1, 1, 1]])). p \<noteq> 0"
    by (simp add: ravel_def)
  have h6: "set (ravel (NDArray 3 3 [[1, 1, 1], [1, 1, 1], [1, 1, 1]])) = {1}"
    by (simp add: ravel_def)
  from overlap_ignore_everywhere [OF h1 h2 h2 h3 h4 h5] h1 h2 h3 h4 h6
  show ?thesis by blast
qed

subsection \<open>Lists of regions\<close>

lemma collect_map_total:
  "\<forall>x \<in> set xs. \<exists>r. f x = Some r \<Longrightarrow> collect (map f xs) = Inr (map (\<lambda>x. the (f x)) xs)"
  by (induction xs) auto

lemma overlap_total:
  "\<exists>r. calculate_overlap a b frame ignore = Some r"
  using kernel_range [of a b frame ignore] by (auto simp: calculate_overlap_kernel_eq)

text \<open>
  C9. \<open>calculate_overlaps\<close> ends with a \<open>RegionException\<close>, which carries no list of
  results, if and only if the two lists differ in length or an ignore list is given
  whose length differs from that of the first list. Otherwise it returns a list as long
  as the inputs whose \<open>i\<close>-th element is the overlap of the \<open>i\<close>-th regions (with the
  \<open>i\<close>-th ignore region when a list of them is given).
\<close>

theorem calculate_overlaps_lengths:
  "((\<exists>n m. calculate_overlaps first second frame ignore = Inl (RegionException n m))
      \<longleftrightarrow> (length first \<noteq> length second
           \<or> (\<exists>ig. ignore = Some ig \<and> length ig \<noteq> length first)))
   \<and> (length first = length second \<and> (\<forall>ig. ignore = Some ig \<longrightarrow> length ig = length first)
      \<longrightarrow> (\<exists>rs. calculate_overlaps first second frame ignore = Inr rs
             \<and> length rs = length first
             \<and> (\<forall>i < length first.
                  calculate_overlap (first ! i) (second ! i) frame
                    (map_option (\<lambda>ig. ig ! i) ignore) = Some (rs ! i))))"
proof (cases "length first = length second \<and> (\<forall>ig. ignore = Some ig \<longrightarrow> length ig = length first)")
  case False
  then show ?thesis
    by (auto simp: calculate_overlaps_def split: option.splits)
next
  case True
  define f where "f = (\<lambda>(i, pairs :: region \<times> region).
      calculate_overlap (fst pairs) (snd pairs) frame (map_option (\<lambda>ig. ig ! i) ignore))"
  define rs where "rs = map (\<lambda>x. the (f x)) (enumerate 0 (zip first second))"
  have eq: "calculate_overlaps first second frame ignore
      = collect (map f (enumerate 0 (zip first second)))"
    using True by (cases ignore) (auto simp: calculate_overlaps_def f_def)
  have "\<forall>x \<in> set (enumerate 0 (zip first second)). \<exists>r. f x = Some r"
    by (auto simp: f_def overlap_total)
  then have res: "calculate_overlaps first second frame ignore = Inr rs"
    unfolding eq rs_def by (rule collect_map_total)
  have len: "length rs = length first"
    using True by (simp add: rs_def)
  have "\<forall>i < length first.
      calculate_overlap (first ! i) (second ! i) frame (map_option (\<lambda>ig. ig ! i) ignore)
        = Some (rs ! i)"
  proof (intro allI impI)
    fix i assume i: "i < length first"
    then have "rs ! i = the (f (i, first ! i, second ! i))"
      using True by (simp add: rs_def nth_enumerate_eq)
    moreover obtain r where "f (i, first ! i, second ! i) = Some r"
      using overlap_total [of "first ! i" "second ! i" frame "map_option (\<lambda>ig. ig ! i) ignore"]
      by (auto simp: f_def)
    ultimately show "calculate_overlap (first ! i) (second ! i) frame
        (map_option (\<lambda>ig. ig ! i) ignore) = Some (rs ! i)"
      by (simp add: f_def)
  qed
  with res len True show ?thesis
    by auto
qed

theorem calculate_overlaps_lengths_witness:
  "(\<exists>n m. calculate_overlaps [Rectangle 0 0 2 2, Empty] [Rectangle 1 1 2 2] None None
       = Inl (RegionException n m))
   \<and> (\<exists>rs. calculate_overlaps [Rectangle 0 0 2 2] [Rectangle 1 1 2 2] None (Some [Empty]) = Inr rs
        \<and> length rs = 1
        \<and> calculate_overlap (Rectangle 0 0 2 2) (Rectangle 1 1 2 2) None (Some Empty)
            = Some (rs ! 0))"
proof -
  have "\<exists>n m. calculate_overlaps [Rectangle 0 0 2 2, Empty] [Rectangle 1 1 2 2] None None
       = Inl (RegionException n m)"
    using calculate_overlaps_lengths [of "[Rectangle 0 0 2 2, Empty]" "[Rectangle 1 1 2 2]" None None]
    by simp
  moreover have "\<exists>rs. calculate_overlaps [Rectangle 0 0 2 2] [Rectangle 1 1 2 2] None (Some [Empty]) = Inr rs
        \<and> length rs = 1
        \<and> calculate_overlap (Rectangle 0 0 2 2) (Rectangle 1 1 2 2) None (Some Empty)
            = Some (rs ! 0)"
    using calculate_overlaps_lengths [of "[Rectangle 0 0 2 2]" "[Rectangle 1 1 2 2]" None "Some [Empty]"]
    by simp
  ultimately show ?thesis ..
qed

subsection \<open>Rectangles left of or above the origin\<close>

text \<open>
  C1 says that the overlap of a non-empty region with itself is 1. For the rectangle
  \<open>(x, y, width, height) = (-5, 0, 5, 2)\<close> and no frame the code returns 0: the
  rectangle is rasterized onto its own bounds \<open>(-5, 0, -1, 1)\<close>, and that raster is all
  zero (see the next theorem), so the union count is 0.
\<close>

theorem self_overlap_negative_rectangle:
  "calculate_overlap (Rectangle (- 5) 0 5 2) (Rectangle (- 5) 0 5 2) None None = Some 0"
  by code_simp

text \<open>
  C2 says that cell \<open>(row, col)\<close> is 1 exactly when pixel \<open>(left + col, top + row)\<close> lies
  in the rectangle's box. For the rectangle \<open>(-5, 0, 5, 2)\<close> and the window
  \<open>(-5, 0, -1, 1)\<close> every pixel of the window lies in the box \<open>[-5, -1] \<times> [0, 1]\<close>, and the
  code returns the all-zero grid: \<open>right\<close> is the minimum of the window-relative column
  4 and the absolute coordinate \<open>bounds[2] = -1\<close>, so the slice \<open>left:right+1\<close> is \<open>0:0\<close>.
  Lemma \<open>rasterize_rectangle_cells\<close> above shows that the claim does hold on every
  window with \<open>bounds[0] \<ge> 0\<close> and \<open>bounds[1] \<ge> 0\<close>.
\<close>

theorem rasterize_rectangle_negative_window:
  "rasterize_rectangle (- 5, 0, 5, 2) (- 5, 0, - 1, 1)
     = Some (NDArray 2 5 [[0, 0, 0, 0, 0], [0, 0, 0, 0, 0]])"
  by code_simp

subsection \<open>Bounds of a mask\<close>

lemma fold_product:
  "fold (\<lambda>i. fold (\<lambda>j. f i j) js) is s = fold (\<lambda>(i, j). f i j) (List.product is js) s"
proof (induction "is" arbitrary: s)
  case Nil
  then show ?case by simp
next
  case (Cons i "is")
  have "fold (\<lambda>(i, j). f i j) (map (Pair i) js) s = fold (\<lambda>j. f i j) js s"
    by (simp add: fold_map comp_def)
  then show ?case
    using Cons.IH by simp
qed

lemma Min_insert_min:
  "finite A \<Longrightarrow> Min (insert (min a b) A) = Min (insert a (insert b A))"
  for a b :: int
  by (cases "A = {}") (simp_all add: min.assoc)

lemma Max_insert_max:
  "finite A \<Longrightarrow> Max (insert (max a b) A) = Max (insert a (insert b A))"
  for a b :: int
  by (cases "A = {}") (simp_all add: max.assoc)

lemma absorb_insert:
  "finite S \<Longrightarrow>
   absorb (min tp i, max bm i, min lf j, max rg j) S = absorb (tp, bm, lf, rg) (insert (i, j) S)"
  by (simp add: absorb_def Min_insert_min Max_insert_max)

lemma fold_mask_bounds_step:
  "fold (\<lambda>(i, j). mask_bounds_step msk i j) ps s
     = absorb s {(int i, int j) | i j. (i, j) \<in> set ps \<and> cells msk ! i ! j \<noteq> 0}"
proof (induction ps arbitrary: s)
  case Nil
  then show ?case
    by (cases s) (simp add: absorb_def)
next
  case (Cons p ps)
  obtain i j where p: "p = (i, j)"
    by (cases p) auto
  obtain tp bm lf rg where s: "s = (tp, bm, lf, rg)"
    by (cases s) auto
  let ?S = "{(int i, int j) | i j. (i, j) \<in> set ps \<and> cells msk ! i ! j \<noteq> 0}"
  have fin: "finite ?S"
  proof -
    have "?S \<subseteq> (\<lambda>(i, j). (int i, int j)) ` set ps"
      by auto
    then show ?thesis
      by (rule finite_subset) simp
  qed
  show ?case
  proof (cases "cells msk ! i ! j \<noteq> 0")
    case True
    have "{(int i', int j') | i' j'. (i', j') \<in> set (p # ps) \<and> cells msk ! i' ! j' \<noteq> 0}
        = insert (int i, int j) ?S"
      using True p by auto
    then show ?thesis
      using Cons.IH [of "mask_bounds_step msk i j s"] True p s absorb_insert [OF fin]
      by (simp add: mask_bounds_step_def)
  next
    case False
    have "{(int i', int j') | i' j'. (i', j') \<in> set (p # ps) \<and> cells msk ! i' ! j' \<noteq> 0} = ?S"
      using False p by auto
    then show ?thesis
      using Cons.IH [of s] False p s
      by (simp add: mask_bounds_step_def)
  qed
qed

lemma mask_bounds_scan_absorb:
  "mask_bounds_scan msk = absorb (ii32_max, ii32_min, ii32_max, ii32_min) (set_pixels msk)"
proof -
  have "{(int i, int j) | i j. (i, j) \<in> set (List.product [0..<shape0 msk] [0..<shape1 msk])
            \<and> cells msk ! i ! j \<noteq> 0} = set_pixels msk"
    by (auto simp: set_pixels_def)
  then show ?thesis
    by (simp add: mask_bounds_scan_def fold_product fold_mask_bounds_step)
qed

lemma finite_set_pixels: "finite (set_pixels msk)"
proof -
  have "set_pixels msk \<subseteq> (\<lambda>(i, j). (int i, int j)) ` ({..<shape0 msk} \<times> {..<shape1 msk})"
    by (auto simp: set_pixels_def)
  then show ?thesis
    by (rule finite_subset) simp
qed

lemma mask_bounds_empty:
  "set_pixels msk = {} \<Longrightarrow> mask_bounds msk = (0, 0, 0, 0)"
  by (simp add: mask_bounds_def mask_bounds_scan_absorb absorb_def)

lemma set_pixels_range:
  "(i, j) \<in> set_pixels msk \<Longrightarrow> 0 \<le> i \<and> i < int (shape0 msk) \<and> 0 \<le> j \<and> j < int (shape1 msk)"
  by (auto simp: set_pixels_def)

lemma mask_bounds_tight:
  assumes ne: "set_pixels msk \<noteq> {}"
    and sz: "shape0 msk < 2 ^ 31" "shape1 msk < 2 ^ 31"
  shows "mask_bounds msk =
           (Min (snd ` set_pixels msk), Min (fst ` set_pixels msk),
            Max (snd ` set_pixels msk), Max (fst ` set_pixels msk))"
proof -
  let ?I = "fst ` set_pixels msk" and ?J = "snd ` set_pixels msk"
  have fin: "finite ?I" "finite ?J" and nonempty: "?I \<noteq> {}" "?J \<noteq> {}"
    using finite_set_pixels ne by auto
  have I: "\<forall>i \<in> ?I. 0 \<le> i \<and> i < ii32_max" and J: "\<forall>j \<in> ?J. 0 \<le> j \<and> j < ii32_max"
    using sz by (force simp: ii32_max_def dest: set_pixels_range)+
  have "Min ?I \<in> ?I" "Max ?I \<in> ?I" "Min ?J \<in> ?J" "Max ?J \<in> ?J"
    using fin nonempty by (auto intro: Min_in Max_in)
  then have b: "Min ?I < ii32_max" "ii32_min \<le> Max ?I" "Min ?J < ii32_max" "ii32_min \<le> Max ?J"
    using I J by (auto simp: ii32_min_def)
  have "Min (insert ii32_max ?I) = Min ?I" "Max (insert ii32_min ?I) = Max ?I"
    "Min (insert ii32_max ?J) = Min ?J" "Max (insert ii32_min ?J) = Max ?J"
  proof -
    show "Min (insert ii32_max ?I) = Min ?I"
      unfolding Min_insert [OF fin(1) nonempty(1)]
      by (rule min.absorb2) (rule less_imp_le [OF b(1)])
    show "Max (insert ii32_min ?I) = Max ?I"
      unfolding Max_insert [OF fin(1) nonempty(1)]
      by (rule max.absorb2) (rule b(2))
    show "Min (insert ii32_max ?J) = Min ?J"
      unfolding Min_insert [OF fin(2) nonempty(2)]
      by (rule min.absorb2) (rule less_imp_le [OF b(3)])
    show "Max (insert ii32_min ?J) = Max ?J"
      unfolding Max_insert [OF fin(2) nonempty(2)]
      by (rule max.absorb2) (rule b(4))
  qed
  then show ?thesis
    using b(1) by (simp add: mask_bounds_def mask_bounds_scan_absorb absorb_def)
qed


text \<open>
  C3, as stated, fails for a mask without set pixels whose offset is not \<open>(0, 0)\<close>:
  \<open>mask_bounds\<close> returns \<open>(0, 0, 0, 0)\<close>, and \<open>_bounds_mask\<close> then adds the offset to it as
  it does to every other box.
\<close>

theorem bounds_mask_empty_counterexample:
  "set_pixels (NDArray 1 1 [[0]]) = {}
   \<and> bounds_mask (NDArray 1 1 [[0]]) (3, 4) = (3, 4, 3, 4)
   \<and> bounds_mask (NDArray 1 1 [[0]]) (3, 4) \<noteq> (0, 0, 0, 0)"
proof -
  have "set_pixels (NDArray 1 1 [[0]]) = {}"
    by (auto simp: set_pixels_def)
  moreover have "bounds_mask (NDArray 1 1 [[0]]) (3, 4) = (3, 4, 3, 4)"
    by code_simp
  ultimately show ?thesis
    by simp
qed

text \<open>
  C3, amended. For a mask with no set pixel \<open>mask_bounds\<close> returns \<open>(0, 0, 0, 0)\<close> and
  \<open>_bounds_mask\<close> returns that box translated by the offset, \<open>(ox, oy, ox, oy)\<close>. For a mask
  with at least one set pixel (and fewer than \<open>2^31\<close> rows and columns, so that no index
  reaches the \<open>int32\<close> start value of the scan) \<open>_bounds_mask\<close> returns the tight box of
  the set pixels, the least and greatest column and row that hold one, translated by
  the offset.
\<close>

theorem bounds_mask_tight:
  "(set_pixels msk = {} \<longrightarrow>
      mask_bounds msk = (0, 0, 0, 0) \<and> bounds_mask msk (ox, oy) = (ox, oy, ox, oy))
   \<and> (set_pixels msk \<noteq> {} \<and> shape0 msk < 2 ^ 31 \<and> shape1 msk < 2 ^ 31 \<longrightarrow>
      bounds_mask msk (ox, oy) =
        (Min (snd ` set_pixels msk) + ox, Min (fst ` set_pixels msk) + oy,
         Max (snd ` set_pixels msk) + ox, Max (fst ` set_pixels msk) + oy))"
  by (simp add: bounds_mask_def mask_bounds_empty mask_bounds_tight)

theorem bounds_mask_tight_witness:
  "set_pixels (NDArray 1 2 [[0, 1]]) \<noteq> {}
   \<and> bounds_mask (NDArray 1 2 [[0, 1]]) (10, 20) = (11, 20, 11, 20)
   \<and> set_pixels (NDArray 1 1 [[0]]) = {}
   \<and> mask_bounds (NDArray 1 1 [[0]]) = (0, 0, 0, 0)
   \<and> bounds_mask (NDArray 1 1 [[0]]) (10, 20) = (10, 20, 10, 20)"
proof -
  have s1: "set_pixels (NDArray 1 2 [[0, 1]]) = {(0, 1)}"
    by (auto simp: set_pixels_def less_Suc_eq numeral_2_eq_2)
  have s0: "set_pixels (NDArray 1 1 [[0]]) = {}"
    by (auto simp: set_pixels_def)
  have "bounds_mask (NDArray 1 2 [[0, 1]]) (10, 20) = (11, 20, 11, 20)"
    using bounds_mask_tight [of "NDArray 1 2 [[0, 1]]" 10 20] s1 by simp
  moreover have "mask_bounds (NDArray 1 1 [[0]]) = (0, 0, 0, 0)"
    "bounds_mask (NDArray 1 1 [[0]]) (10, 20) = (10, 20, 10, 20)"
    using bounds_mask_tight [of "NDArray 1 1 [[0]]" 10 20] s0 by simp_all
  ultimately show ?thesis
    using s1 s0 by simp
qed

subsection \<open>Regions without pixels\<close>

text \<open>
  The empty variant is not the only region without pixels: a mask with no set pixel
  and a rectangle of zero extent have none either. Two masks without set pixels have
  overlap 1 when their offsets agree, since their boxes are the same single pixel.
\<close>

lemma overlap_empty_masks_same_offset:
  assumes "set_pixels m1 = {}" "set_pixels m2 = {}"
  shows "calculate_overlap (Mask m1 off) (Mask m2 off) frame ignore = Some 1"
proof -
  have "degenerate (union_bounds (region_bounds (Mask m1 off)) (region_bounds (Mask m2 off)))"
    using assms by (cases off) (simp add: bounds_mask_def mask_bounds_empty union_bounds_def degenerate_def)
  then show ?thesis
    by (simp only: calculate_overlap_kernel_eq kernel_degenerate_union)
qed

text \<open>
  C4 says that a degenerate union of the two boxes gives the overlap 1, which
  \<open>overlap_degenerate_union\<close> above proves, and that in particular the overlap of two
  empty regions is 1 for every frame and ignore region. The code departs from the
  second part when the two empty regions lie apart: the masks below have no set pixel,
  their boxes are the single pixels \<open>(0, 0, 0, 0)\<close> and \<open>(10, 10, 10, 10)\<close>, the union
  \<open>(0, 0, 10, 10)\<close> is not degenerate, both rasters are all zero, and the result is 0.
\<close>

theorem overlap_empty_masks_apart:
  "set_pixels (NDArray 1 1 [[0]]) = {}
   \<and> calculate_overlap (Mask (NDArray 1 1 [[0]]) (0, 0)) (Mask (NDArray 1 1 [[0]]) (10, 10))
       None None = Some 0"
proof -
  have "set_pixels (NDArray 1 1 [[0]]) = {}"
    by (auto simp: set_pixels_def)
  moreover have "calculate_overlap (Mask (NDArray 1 1 [[0]]) (0, 0))
      (Mask (NDArray 1 1 [[0]]) (10, 10)) None None = Some 0"
    by code_simp
  ultimately show ?thesis
    by simp
qed

text \<open>The same happens for two rectangles of zero extent that lie apart.\<close>

lemma overlap_empty_rectangles_apart:
  "calculate_overlap (Rectangle 0 0 0 0) (Rectangle 10 10 0 0) None None = Some 0"
  by code_simp

end
